theory Spec2Isabelle
  imports Main "HOL-Library.Multiset"
begin

section \<open>The command-line functions of doit (doit/cmds.py)\<close>

text \<open>
  A shallow embedding of \<^verbatim>\<open>src/doit/cmds.py\<close>. A Python function that mutates the
  dependency manager and writes to the output stream becomes a function that takes the
  state and returns the new one; a \<^verbatim>\<open>raise\<close> becomes an error value returned next to
  the state reached when it was raised; a \<^verbatim>\<open>while\<close> loop that may run forever becomes a
  \<^theory_text>\<open>partial_function (option)\<close>, where \<open>None\<close> stands for "does not return".
  \<^verbatim>\<open>doit_clean\<close> only delegates to the \<^verbatim>\<open>clean\<close> method of the tasks, which cmds.py does
  not define; it is left out.
\<close>

subsection \<open>Tasks, errors and the state the commands act on\<close>

datatype action = CmdAction string | PythonAction string

text \<open>
  The fields of \<^verbatim>\<open>doit.task.Task\<close> that cmds.py reads. \<open>task_dep\<close> and \<open>file_dep\<close>
  are Python lists: cmds.py iterates over them in order.
\<close>

record task =
  name :: string
  actions :: "action list"
  file_dep :: "string list"
  task_dep :: "string list"
  targets :: "string list"
  doc :: "string option"
  is_subtask :: bool

text \<open>
  The exceptions cmds.py can raise: \<open>InvalidCommand\<close> explicitly, \<open>KeyError\<close> from a
  dictionary subscript \<^verbatim>\<open>tasks[x]\<close> or \<^verbatim>\<open>status_map[x]\<close> with a missing key,
  \<open>RecursionError\<close> when the interpreter's recursion limit is exceeded, \<open>IOError\<close> from
  \<^verbatim>\<open>open\<close>. \<open>SelectionError\<close> and \<open>StoreError\<close> are the errors of the collaborators
  (task selection, dependency store).
\<close>

datatype error =
    InvalidCommand string
  | KeyError string
  | RecursionError
  | IOError string
  | SelectionError string
  | StoreError string

record dep_record =
  fingerprints :: "string \<rightharpoonup> string"
  ignored :: bool

text \<open>The calls made on the \<^verbatim>\<open>dependencyManager\<close> object, in the order they are made.\<close>

datatype dep_call =
    DepOpen string
  | DepRemove string
  | DepRemoveAll
  | DepIgnore string
  | DepClose

text \<open>
  The state a command acts on: the records of the dependency store, keyed by task name;
  the trace of calls made on the dependency manager; the strings written to
  \<^verbatim>\<open>outstream\<close>, one element per \<^verbatim>\<open>write\<close> call.
\<close>

record cmd_state =
  records :: "string \<rightharpoonup> dep_record"
  calls :: "dep_call list"
  out :: "string list"

text \<open>
  The outcome of a command: \<open>None\<close> when the Python function returns normally (it
  returns \<^verbatim>\<open>None\<close>), \<open>Some e\<close> when it raises \<open>e\<close>; with the state reached.
\<close>

type_synonym outcome = "error option \<times> cmd_state"

subsection \<open>The dependency manager (doit.dependency.Dependency)\<close>

text \<open>
  Modelled from the spec: the constructor of class \<^verbatim>\<open>Dependency\<close> (doit/dependency.py is
  not under src/). It acquires the persisted handle of the store file; the records are
  those of the state. The call is recorded in the trace.
\<close>

definition Dependency :: "string \<Rightarrow> cmd_state \<Rightarrow> cmd_state" where
  "Dependency dbFileName s = s\<lparr>calls := calls s @ [DepOpen dbFileName]\<rparr>"

text \<open>
  Modelled from the spec: \<^verbatim>\<open>Dependency.remove(name)\<close> (doit/dependency.py is not under
  src/): "deletes the record for one task; idempotent if absent".
\<close>

definition Dependency_remove :: "string \<Rightarrow> cmd_state \<Rightarrow> cmd_state" where
  "Dependency_remove n s =
     s\<lparr>records := (records s)(n := None), calls := calls s @ [DepRemove n]\<rparr>"

text \<open>
  Modelled from the spec: \<^verbatim>\<open>Dependency.remove_all()\<close> (doit/dependency.py is not under
  src/): "clears every record".
\<close>

definition Dependency_remove_all :: "cmd_state \<Rightarrow> cmd_state" where
  "Dependency_remove_all s = s\<lparr>records := Map.empty, calls := calls s @ [DepRemoveAll]\<rparr>"

text \<open>
  Modelled from the spec: \<^verbatim>\<open>Dependency.ignore(task)\<close> (doit/dependency.py is not under
  src/): "sets the ignored flag without deleting existing fingerprints"; a task with no
  record gets one with no fingerprints ("flagged (not deleted) by ignore").
\<close>

definition Dependency_ignore :: "task \<Rightarrow> cmd_state \<Rightarrow> cmd_state" where
  "Dependency_ignore t s =
     s\<lparr>records := (records s)(name t \<mapsto>
           (case records s (name t) of
              None \<Rightarrow> \<lparr>fingerprints = Map.empty, ignored = True\<rparr>
            | Some r \<Rightarrow> r\<lparr>ignored := True\<rparr>)),
       calls := calls s @ [DepIgnore (name t)]\<rparr>"

text \<open>
  Modelled from the spec: \<^verbatim>\<open>Dependency.close()\<close> (doit/dependency.py is not under src/):
  the release of the persisted handle. It changes no record; the call is recorded in the
  trace.
\<close>

definition Dependency_close :: "cmd_state \<Rightarrow> cmd_state" where
  "Dependency_close s = s\<lparr>calls := calls s @ [DepClose]\<rparr>"

text \<open>\<^verbatim>\<open>outstream.write(x)\<close>.\<close>

definition outstream_write :: "string \<Rightarrow> cmd_state \<Rightarrow> cmd_state" where
  "outstream_write x s = s\<lparr>out := out s @ [x]\<rparr>"

subsection \<open>The dictionary of all tasks\<close>

text \<open>
  \<^verbatim>\<open>tasks = dict([(t.name, t) for t in taskList])\<close>: of two tasks with one name, the later
  one of the list is kept.
\<close>

definition tasks_dict :: "task list \<Rightarrow> (string \<rightharpoonup> task)" where
  "tasks_dict taskList = map_of (rev (map (\<lambda>t. (name t, t)) taskList))"

text \<open>\<^verbatim>\<open>"'%s' is not a task." % taskName\<close>\<close>

definition not_a_task :: "string \<Rightarrow> string" where
  "not_a_task taskName = [CHR 0x27] @ taskName @ [CHR 0x27] @ '' is not a task.''"

subsection \<open>doit_forget\<close>

text \<open>
  The work-list loop of \<^verbatim>\<open>doit_forget\<close> (lines 137 to 145):
  \<^verbatim>\<open>
  while group:
      to_forget = group.pop(0)
      if not tasks[to_forget].actions:
          group.extend(tasks[to_forget].task_dep)
      dependencyManager.remove(to_forget)
      outstream.write("forgeting %s\n" % to_forget)
  \<close>
  \<^verbatim>\<open>tasks[to_forget]\<close> raises \<open>KeyError\<close> when a member of a group names no task. The
  loop has no visited set; where it never ends the value is \<open>None\<close>. The list
  \<^verbatim>\<open>group\<close> is \<open>grp\<close> here.
\<close>

partial_function (option) forget_group ::
  "(string \<rightharpoonup> task) \<Rightarrow> string list \<Rightarrow> cmd_state \<Rightarrow> outcome option" where
  "forget_group tasks grp s =
     (case grp of
        [] \<Rightarrow> Some (None, s)
      | to_forget # rest \<Rightarrow>
          (case tasks to_forget of
             None \<Rightarrow> Some (Some (KeyError to_forget), s)
           | Some t \<Rightarrow>
               forget_group tasks
                 (if actions t = [] then rest @ task_dep t else rest)
                 (outstream_write (''forgeting '' @ to_forget @ ''\<newline>'')
                    (Dependency_remove to_forget s))))"

text \<open>
  The \<^verbatim>\<open>for taskName in forgetTasks\<close> loop (lines 131 to 145): the name is checked, then
  its group is forgotten, before the next name is looked at.
\<close>

fun forget_names ::
  "(string \<rightharpoonup> task) \<Rightarrow> string list \<Rightarrow> cmd_state \<Rightarrow> outcome option" where
  "forget_names tasks [] s = Some (None, s)"
| "forget_names tasks (taskName # rest) s =
     (if tasks taskName = None
      then Some (Some (InvalidCommand (not_a_task taskName)), s)
      else (case forget_group tasks [taskName] s of
              None \<Rightarrow> None
            | Some (Some e, s') \<Rightarrow> Some (Some e, s')
            | Some (None, s') \<Rightarrow> forget_names tasks rest s'))"

text \<open>
  \<^verbatim>\<open>doit_forget(dbFileName, taskList, outstream, forgetTasks)\<close>. The output stream is the
  \<open>out\<close> field of the state. \<^verbatim>\<open>dependencyManager.close()\<close> is the last statement of the
  function, outside any \<^verbatim>\<open>try\<close>: a raise leaves the function before it.
\<close>

definition doit_forget ::
  "string \<Rightarrow> task list \<Rightarrow> string list \<Rightarrow> cmd_state \<Rightarrow> outcome option" where
  "doit_forget dbFileName taskList forgetTasks s0 =
     (let s = Dependency dbFileName s0 in
      if forgetTasks = []
      then Some (None, Dependency_close
             (outstream_write ''forgeting all tasks\<newline>'' (Dependency_remove_all s)))
      else (case forget_names (tasks_dict taskList) forgetTasks s of
              None \<Rightarrow> None
            | Some (Some e, s') \<Rightarrow> Some (Some e, s')
            | Some (None, s') \<Rightarrow> Some (None, Dependency_close s')))"

subsection \<open>doit_ignore\<close>

text \<open>
  The work-list loop of \<^verbatim>\<open>doit_ignore\<close> (lines 169 to 177), a copy of the one of
  \<^verbatim>\<open>doit_forget\<close> that calls \<^verbatim>\<open>dependencyManager.ignore(tasks[to_ignore])\<close>.
\<close>

partial_function (option) ignore_group ::
  "(string \<rightharpoonup> task) \<Rightarrow> string list \<Rightarrow> cmd_state \<Rightarrow> outcome option" where
  "ignore_group tasks grp s =
     (case grp of
        [] \<Rightarrow> Some (None, s)
      | to_ignore # rest \<Rightarrow>
          (case tasks to_ignore of
             None \<Rightarrow> Some (Some (KeyError to_ignore), s)
           | Some t \<Rightarrow>
               ignore_group tasks
                 (if actions t = [] then rest @ task_dep t else rest)
                 (outstream_write (''ignoring '' @ to_ignore @ ''\<newline>'')
                    (Dependency_ignore t s))))"

fun ignore_names ::
  "(string \<rightharpoonup> task) \<Rightarrow> string list \<Rightarrow> cmd_state \<Rightarrow> outcome option" where
  "ignore_names tasks [] s = Some (None, s)"
| "ignore_names tasks (taskName # rest) s =
     (if tasks taskName = None
      then Some (Some (InvalidCommand (not_a_task taskName)), s)
      else (case ignore_group tasks [taskName] s of
              None \<Rightarrow> None
            | Some (Some e, s') \<Rightarrow> Some (Some e, s')
            | Some (None, s') \<Rightarrow> ignore_names tasks rest s'))"

text \<open>
  \<^verbatim>\<open>doit_ignore(dbFileName, taskList, outstream, ignoreTasks)\<close>. With no task named the
  function writes its message and returns before the dependency manager is created.
\<close>

definition doit_ignore ::
  "string \<Rightarrow> task list \<Rightarrow> string list \<Rightarrow> cmd_state \<Rightarrow> outcome option" where
  "doit_ignore dbFileName taskList ignoreTasks s0 =
     (if ignoreTasks = []
      then Some (None, outstream_write
             ''You cant ignore all tasks! Please select a task.\<newline>'' s0)
      else (let s = Dependency dbFileName s0 in
            case ignore_names (tasks_dict taskList) ignoreTasks s of
              None \<Rightarrow> None
            | Some (Some e, s') \<Rightarrow> Some (Some e, s')
            | Some (None, s') \<Rightarrow> Some (None, Dependency_close s')))"

subsection \<open>The task graph the work-list loops walk\<close>

text \<open>
  The edges the loops of \<^verbatim>\<open>doit_forget\<close> and \<^verbatim>\<open>doit_ignore\<close> follow: from a group task (a
  task of the dictionary with no actions) to each name of its \<open>task_dep\<close>.
\<close>

definition group_edges :: "(string \<rightharpoonup> task) \<Rightarrow> (string \<times> string) set" where
  "group_edges tasks =
     {(a, b). \<exists>t. tasks a = Some t \<and> actions t = [] \<and> b \<in> set (task_dep t)}"

text \<open>The names reachable from the requested names along those edges.\<close>

definition reachable_names :: "(string \<rightharpoonup> task) \<Rightarrow> string list \<Rightarrow> string set" where
  "reachable_names tasks names = (group_edges tasks)\<^sup>* `` set names"

text \<open>The edges that leave a reachable name.\<close>

definition reachable_edges ::
  "(string \<rightharpoonup> task) \<Rightarrow> string list \<Rightarrow> (string \<times> string) set" where
  "reachable_edges tasks names =
     {(a, b). (a, b) \<in> group_edges tasks \<and> a \<in> reachable_names tasks names}"

subsection \<open>doit_list\<close>

text \<open>\<^verbatim>\<open>s.startswith(p)\<close>\<close>

definition startswith :: "string \<Rightarrow> string \<Rightarrow> bool" where
  "startswith s p = (take (length p) s = p)"

text \<open>\<^verbatim>\<open>status_map = {'ignore': 'I', 'up-to-date': 'U', 'run': 'R'}\<close>\<close>

definition status_map :: "string \<rightharpoonup> string" where
  "status_map = map_of [(''ignore'', ''I''), (''up-to-date'', ''U''), (''run'', ''R'')]"

text \<open>
  Lines 79 to 82: the name of the task, followed by a tab, \<^verbatim>\<open>"* "\<close> and the doc when
  \<^verbatim>\<open>print_doc\<close> is set and the task has a doc that is not empty.
\<close>

definition task_str :: "bool \<Rightarrow> task \<Rightarrow> string" where
  "task_str print_doc t =
     (case doc t of
        None \<Rightarrow> name t
      | Some d \<Rightarrow> if print_doc \<and> d \<noteq> [] then name t @ [CHR 0x09] @ ''* '' @ d else name t)"

text \<open>
  \<^verbatim>\<open>_list_print_task(task)\<close> (lines 77 to 92) and its loop over \<^verbatim>\<open>task.task_dep\<close> (lines 90
  to 92). The variables the closure captures are arguments: \<open>get_status\<close> is the method
  \<^verbatim>\<open>dependencyManager.get_status\<close> (it returns a status string or raises), \<open>tasks\<close> the
  dictionary of all tasks. The first argument is the number of nested calls the
  interpreter still allows: Python raises \<open>RecursionError\<close> where the recursion would go
  deeper, so the function is total.
\<close>

fun list_print_task ::
  "nat \<Rightarrow> (task \<Rightarrow> error + string) \<Rightarrow> (string \<rightharpoonup> task) \<Rightarrow> bool \<Rightarrow> bool \<Rightarrow> bool \<Rightarrow>
   task \<Rightarrow> cmd_state \<Rightarrow> outcome"
and list_print_subtasks ::
  "nat \<Rightarrow> (task \<Rightarrow> error + string) \<Rightarrow> (string \<rightharpoonup> task) \<Rightarrow> bool \<Rightarrow> bool \<Rightarrow> bool \<Rightarrow>
   task \<Rightarrow> string list \<Rightarrow> cmd_state \<Rightarrow> outcome"
where
  "list_print_task 0 get_status tasks print_subtasks print_doc print_status t s =
     (Some RecursionError, s)"
| "list_print_task (Suc d) get_status tasks print_subtasks print_doc print_status t s =
     (case (if print_status
            then (case get_status t of
                    Inl e \<Rightarrow> Inl e
                  | Inr task_uptodate \<Rightarrow>
                      (case status_map task_uptodate of
                         None \<Rightarrow> Inl (KeyError task_uptodate)
                       | Some c \<Rightarrow> Inr (c @ '' '' @ task_str print_doc t)))
            else Inr (task_str print_doc t)) of
        Inl e \<Rightarrow> (Some e, s)
      | Inr line \<Rightarrow>
          (if print_subtasks
           then list_print_subtasks d get_status tasks print_subtasks print_doc print_status
                  t (task_dep t) (outstream_write (line @ ''\<newline>'') s)
           else (None, outstream_write (line @ ''\<newline>'') s)))"
| "list_print_subtasks d get_status tasks print_subtasks print_doc print_status t [] s =
     (None, s)"
| "list_print_subtasks d get_status tasks print_subtasks print_doc print_status t
     (subt # rest) s =
     (if startswith subt (name t)
      then (case tasks subt of
              None \<Rightarrow> (Some (KeyError subt), s)
            | Some t' \<Rightarrow>
                (case list_print_task d get_status tasks print_subtasks print_doc
                        print_status t' s of
                   (Some e, s') \<Rightarrow> (Some e, s')
                 | (None, s') \<Rightarrow>
                     list_print_subtasks d get_status tasks print_subtasks print_doc
                       print_status t rest s'))
      else list_print_subtasks d get_status tasks print_subtasks print_doc print_status
             t rest s)"

text \<open>
  The line lines 79 to 87 build for a task when \<^verbatim>\<open>print_status\<close> is set: the letter
  \<^verbatim>\<open>status_map[get_status(task)]\<close>, a space, the task string and a newline; \<open>None\<close> where
  \<^verbatim>\<open>get_status\<close> or the lookup in \<^verbatim>\<open>status_map\<close> raises. The properties of \<^verbatim>\<open>doit_list\<close>
  are stated with it.
\<close>

definition status_line :: "(task \<Rightarrow> error + string) \<Rightarrow> bool \<Rightarrow> task \<Rightarrow> string option" where
  "status_line get_status print_doc t =
     (case get_status t of
        Inl e \<Rightarrow> None
      | Inr st \<Rightarrow>
          (case status_map st of
             None \<Rightarrow> None
           | Some c \<Rightarrow> Some (c @ '' '' @ task_str print_doc t @ ''\<newline>'')))"

text \<open>\<^verbatim>\<open>[tasks[name] for name in filter_tasks]\<close> (line 98)\<close>

fun lookup_tasks :: "(string \<rightharpoonup> task) \<Rightarrow> string list \<Rightarrow> error + task list" where
  "lookup_tasks tasks [] = Inr []"
| "lookup_tasks tasks (n # ns) =
     (case tasks n of
        None \<Rightarrow> Inl (KeyError n)
      | Some t \<Rightarrow>
          (case lookup_tasks tasks ns of Inl e \<Rightarrow> Inl e | Inr ts \<Rightarrow> Inr (t # ts)))"

text \<open>The \<^verbatim>\<open>for task in print_tasks\<close> loop (lines 105 to 112).\<close>

fun doit_list_loop ::
  "nat \<Rightarrow> (task \<Rightarrow> error + string) \<Rightarrow> (string \<rightharpoonup> task) \<Rightarrow> string list \<Rightarrow>
   bool \<Rightarrow> bool \<Rightarrow> bool \<Rightarrow> bool \<Rightarrow> task list \<Rightarrow> cmd_state \<Rightarrow> outcome" where
  "doit_list_loop d get_status tasks filter_tasks print_subtasks print_doc print_status
     print_private [] s = (None, s)"
| "doit_list_loop d get_status tasks filter_tasks print_subtasks print_doc print_status
     print_private (t # rest) s =
     (if filter_tasks = [] \<and> is_subtask t
      then doit_list_loop d get_status tasks filter_tasks print_subtasks print_doc
             print_status print_private rest s
      else if \<not> print_private \<and> startswith (name t) ''_''
      then doit_list_loop d get_status tasks filter_tasks print_subtasks print_doc
             print_status print_private rest s
      else (case list_print_task d get_status tasks print_subtasks print_doc print_status
                   t s of
              (Some e, s') \<Rightarrow> (Some e, s')
            | (None, s') \<Rightarrow>
                doit_list_loop d get_status tasks filter_tasks print_subtasks print_doc
                  print_status print_private rest s'))"

text \<open>
  \<^verbatim>\<open>doit_list(dependencyFile, task_list, outstream, filter_tasks, print_subtasks,
  print_doc, print_status, print_private)\<close>. It returns 0 or raises. The dependency manager
  is created when \<^verbatim>\<open>print_status\<close> is set, and is never closed.
\<close>

definition doit_list ::
  "nat \<Rightarrow> (task \<Rightarrow> error + string) \<Rightarrow> string \<Rightarrow> task list \<Rightarrow> string list \<Rightarrow>
   bool \<Rightarrow> bool \<Rightarrow> bool \<Rightarrow> bool \<Rightarrow> cmd_state \<Rightarrow> (error + int) \<times> cmd_state" where
  "doit_list d get_status dependencyFile task_list filter_tasks print_subtasks print_doc
     print_status print_private s0 =
     (case (if filter_tasks \<noteq> [] then lookup_tasks (tasks_dict task_list) filter_tasks
            else Inr task_list) of
        Inl e \<Rightarrow> (Inl e, s0)
      | Inr print_tasks \<Rightarrow>
          (case doit_list_loop d get_status (tasks_dict task_list) filter_tasks
                  print_subtasks print_doc print_status print_private print_tasks
                  (if print_status then Dependency dependencyFile s0 else s0) of
             (Some e, s') \<Rightarrow> (Inl e, s')
           | (None, s') \<Rightarrow> (Inr 0, s')))"

subsection \<open>The status of a task (doit.dependency.Dependency.get_status)\<close>

text \<open>
  Modelled from the spec: \<^verbatim>\<open>Dependency.get_status(task)\<close> (doit/dependency.py is not under
  src/): "returns ignore if the record's ignored flag is set; else recomputes each
  file_dep fingerprint and each task_dep's status: if any required task is not up-to-date
  or any file fingerprint differs from the stored one (or is missing), returns run;
  otherwise up-to-date", and "absence of a record means never run (status = run)".
  \<open>fs\<close> gives the current fingerprint of each file that exists. The first argument
  bounds the depth of the recursion through \<open>task_dep\<close>; the result is \<open>None\<close> where no
  status is defined: the bound is reached (a cycle of \<open>task_dep\<close>) or a \<open>task_dep\<close> names
  no task.
\<close>

fun Dependency_get_status ::
  "nat \<Rightarrow> (string \<rightharpoonup> task) \<Rightarrow> (string \<rightharpoonup> string) \<Rightarrow> (string \<rightharpoonup> dep_record) \<Rightarrow>
   task \<Rightarrow> string option" where
  "Dependency_get_status 0 tasks fs recs t = None"
| "Dependency_get_status (Suc k) tasks fs recs t =
     (case recs (name t) of
        None \<Rightarrow> Some ''run''
      | Some r \<Rightarrow>
          if ignored r then Some ''ignore''
          else if list_ex (\<lambda>f. fs f = None \<or> fingerprints r f \<noteq> fs f) (file_dep t)
          then Some ''run''
          else (let ds = map (\<lambda>n. case tasks n of
                                     None \<Rightarrow> None
                                   | Some t' \<Rightarrow> Dependency_get_status k tasks fs recs t')
                             (task_dep t)
                in if list_ex (\<lambda>d. d = None) ds then None
                   else if list_ex (\<lambda>d. d \<noteq> Some ''up-to-date'') ds then Some ''run''
                   else Some ''up-to-date''))"

text \<open>
  The method \<^verbatim>\<open>get_status\<close> of a dependency manager over the records \<open>recs\<close>, as
  \<^verbatim>\<open>doit_list\<close> calls it: it returns the status or raises.
\<close>

definition get_status_of ::
  "nat \<Rightarrow> (string \<rightharpoonup> task) \<Rightarrow> (string \<rightharpoonup> string) \<Rightarrow> (string \<rightharpoonup> dep_record) \<Rightarrow>
   task \<Rightarrow> error + string" where
  "get_status_of k tasks fs recs t =
     (case Dependency_get_status k tasks fs recs t of
        None \<Rightarrow> Inl (StoreError (name t))
      | Some st \<Rightarrow> Inr st)"

text \<open>
  Modelled from the spec: \<^verbatim>\<open>Dependency.commit(task, fingerprints)\<close> (doit/dependency.py is
  not under src/): "atomically replaces the stored fingerprints for a task after its
  actions succeed"; the record is "created/overwritten on successful task execution".
\<close>

definition Dependency_commit ::
  "task \<Rightarrow> (string \<rightharpoonup> string) \<Rightarrow> (string \<rightharpoonup> dep_record) \<Rightarrow> (string \<rightharpoonup> dep_record)" where
  "Dependency_commit t fps recs =
     recs(name t \<mapsto> (case recs (name t) of
                       None \<Rightarrow> \<lparr>fingerprints = fps, ignored = False\<rparr>
                     | Some r \<Rightarrow> r\<lparr>fingerprints := fps\<rparr>))"

subsection \<open>Task selection (doit.main.TaskSetup)\<close>

text \<open>
  Modelled from the spec: the traversal of \<^verbatim>\<open>TaskSetup.process\<close> (doit/main.py is not under
  src/): the plan is extended with the \<open>task_dep\<close> closure of a name, then with the task
  itself, so that "every task's transitive task_dep closure precedes it"; "a task
  reachable via multiple paths appears exactly once"; "unknown names fail with a not a
  task error naming the offending identifier"; "cycles must be rejected with a
  descriptive error rather than recursing indefinitely". \<open>path\<close> holds the names being
  expanded; the first argument bounds the depth by the number of tasks.
\<close>

fun add_task ::
  "nat \<Rightarrow> (string \<rightharpoonup> task) \<Rightarrow> string list \<Rightarrow> string \<Rightarrow> task list \<Rightarrow> error + task list"
and add_tasks ::
  "nat \<Rightarrow> (string \<rightharpoonup> task) \<Rightarrow> string list \<Rightarrow> string list \<Rightarrow> task list \<Rightarrow> error + task list"
where
  "add_task 0 tasks path n plan = Inl (SelectionError n)"
| "add_task (Suc k) tasks path n plan =
     (if n \<in> set (map name plan) then Inr plan
      else if n \<in> set path then Inl (SelectionError n)
      else (case tasks n of
              None \<Rightarrow> Inl (InvalidCommand (not_a_task n))
            | Some t \<Rightarrow>
                (case add_tasks k tasks (n # path) (task_dep t) plan of
                   Inl e \<Rightarrow> Inl e
                 | Inr plan' \<Rightarrow> Inr (plan' @ [t]))))"
| "add_tasks k tasks path [] plan = Inr plan"
| "add_tasks k tasks path (n # ns) plan =
     (case add_task k tasks path n plan of
        Inl e \<Rightarrow> Inl e
      | Inr plan' \<Rightarrow> add_tasks k tasks path ns plan')"

text \<open>
  Modelled from the spec: \<^verbatim>\<open>TaskSetup(task_list, requested).process()\<close> (doit/main.py is
  not under src/): "if requested is empty/none, the default plan is every top-level
  (non-subtask) task in declaration order"; otherwise each requested name is resolved
  and expanded.
\<close>

definition TaskSetup_process :: "task list \<Rightarrow> string list option \<Rightarrow> error + task list" where
  "TaskSetup_process task_list requested =
     add_tasks (Suc (length task_list)) (tasks_dict task_list) []
       (case requested of
          None \<Rightarrow> map name (filter (\<lambda>t. \<not> is_subtask t) task_list)
        | Some ns \<Rightarrow> if ns = [] then map name (filter (\<lambda>t. \<not> is_subtask t) task_list)
                     else ns)
       []"

subsection \<open>doit_run\<close>

text \<open>
  The argument \<^verbatim>\<open>output\<close>: the path of a file (\<^verbatim>\<open>isinstance(output, str)\<close>) or a file-like
  object.
\<close>

datatype output_arg = OutPath string | OutStream

text \<open>\<^verbatim>\<open>reporter_cls(outstream, show_out, True)\<close>\<close>

datatype reporter_obj = Reporter string output_arg bool bool

text \<open>
  The arguments of one call \<^verbatim>\<open>run_tasks(dependencyFile, selected_tasks, reporter_obj,
  verbosity, alwaysExecute, continue_)\<close>.
\<close>

datatype runner_call = RunTasks string "task list" reporter_obj "int option" bool bool

text \<open>
  What \<^verbatim>\<open>doit_run\<close> uses and src/ does not hold: the registry \<^verbatim>\<open>doit.reporter.REPORTERS\<close>
  (reporter name to reporter class, a class being given by its name), the constant
  \<^verbatim>\<open>Task.DEFAULT_VERBOSITY\<close>, the runner \<^verbatim>\<open>doit.runner.run_tasks\<close> (it returns an exit code
  or raises), and whether \<^verbatim>\<open>open(output, 'w')\<close> succeeds on a path.
\<close>

record run_env =
  REPORTERS :: "string \<rightharpoonup> string"
  DEFAULT_VERBOSITY :: int
  run_tasks :: "runner_call \<Rightarrow> error + int"
  can_open :: "string \<Rightarrow> bool"

text \<open>
  The effects of \<^verbatim>\<open>doit_run\<close>: the files opened and closed, and the calls of the runner,
  in order. \<^verbatim>\<open>doit_auto\<close> adds the directory watches installed.
\<close>

record run_state =
  opened :: "string list"
  closed :: "string list"
  runner_calls :: "runner_call list"
  watches :: "string list"

text \<open>The message of lines 20 to 22.\<close>

definition no_reporter :: "string \<Rightarrow> string" where
  "no_reporter reporter =
     ''No reporter named '' @ [CHR 0x27] @ reporter @ [CHR 0x27] @
     ''.\<newline>Type '' @ [CHR 0x27] @ ''doit help run'' @ [CHR 0x27] @
     '' to see a list of available reporters.''"

text \<open>
  \<^verbatim>\<open>doit_run(dependencyFile, task_list, output, options, verbosity, alwaysExecute,
  continue_, reporter)\<close>. The tasks are selected first (line 18), then the reporter is
  looked up (lines 19 to 23); the runner is called inside \<^verbatim>\<open>try\<close>, and a file opened for
  \<^verbatim>\<open>output\<close> is closed in \<^verbatim>\<open>finally\<close>.
\<close>

definition doit_run ::
  "run_env \<Rightarrow> string \<Rightarrow> task list \<Rightarrow> output_arg \<Rightarrow> string list option \<Rightarrow> int option \<Rightarrow>
   bool \<Rightarrow> bool \<Rightarrow> string \<Rightarrow> run_state \<Rightarrow> (error + int) \<times> run_state" where
  "doit_run env dependencyFile task_list outp options verbosity alwaysExecute continue
     reporter s =
     (case TaskSetup_process task_list options of
        Inl e \<Rightarrow> (Inl e, s)
      | Inr selected_tasks \<Rightarrow>
          (case REPORTERS env reporter of
             None \<Rightarrow> (Inl (InvalidCommand (no_reporter reporter)), s)
           | Some reporter_cls \<Rightarrow>
               (let use_verbosity =
                      (case verbosity of None \<Rightarrow> DEFAULT_VERBOSITY env | Some v \<Rightarrow> v);
                    show_out = (use_verbosity < 2);
                    call = RunTasks dependencyFile selected_tasks
                             (Reporter reporter_cls outp show_out True)
                             verbosity alwaysExecute continue
                in (case outp of
                      OutPath p \<Rightarrow>
                        if \<not> can_open env p then (Inl (IOError p), s)
                        else (run_tasks env call,
                              s\<lparr>opened := opened s @ [p],
                                runner_calls := runner_calls s @ [call],
                                closed := closed s @ [p]\<rparr>)
                    | OutStream \<Rightarrow>
                        (run_tasks env call,
                         s\<lparr>runner_calls := runner_calls s @ [call]\<rparr>)))))"

subsection \<open>FileModifyWatcher and doit_auto\<close>

text \<open>
  \<^verbatim>\<open>os.path.abspath\<close> and \<^verbatim>\<open>os.path.dirname\<close>, functions of the Python library: the first
  depends on the current directory of the process.
\<close>

record os_path =
  abspath :: "string \<Rightarrow> string"
  dirname :: "string \<Rightarrow> string"

text \<open>The one field of a pyinotify event that cmds.py reads.\<close>

record event =
  pathname :: string

text \<open>
  The fields of a \<^verbatim>\<open>FileModifyWatcher\<close>. Both are Python sets: here lists without
  duplicates. The order in which Python iterates over a set is not specified; the
  properties below use only the elements of the lists and that none is repeated.
\<close>

record watcher =
  file_list :: "string list"
  watch_dirs :: "string list"

text \<open>\<^verbatim>\<open>FileModifyWatcher.__init__(self, file_list)\<close> (lines 190 to 194)\<close>

definition FileModifyWatcher :: "os_path \<Rightarrow> string list \<Rightarrow> watcher" where
  "FileModifyWatcher os fl =
     \<lparr>file_list = remdups (map (abspath os) fl),
      watch_dirs = remdups (map (dirname os) (remdups (map (abspath os) fl)))\<rparr>"

text \<open>
  \<^verbatim>\<open>FileModifyWatcher._handle(self, event)\<close> (lines 196 to 198), with the method
  \<^verbatim>\<open>handle_event\<close> of the subclass as an argument.
\<close>

definition FileModifyWatcher_handle ::
  "watcher \<Rightarrow> (event \<Rightarrow> 'st \<Rightarrow> error option \<times> 'st) \<Rightarrow> event \<Rightarrow> 'st \<Rightarrow> error option \<times> 'st" where
  "FileModifyWatcher_handle w handle_event ev s =
     (if pathname ev \<in> set (file_list w) then handle_event ev s else (None, s))"

text \<open>
  \<^verbatim>\<open>self.notifier.loop(loop_callback)\<close> (line 222): pyinotify passes each event it receives
  to \<^verbatim>\<open>process_default\<close>, that is to \<^verbatim>\<open>_handle\<close>. The loop is infinite by design; the list is
  the events received until \<^verbatim>\<open>loop_callback\<close> stops it. An exception of the handler leaves
  the loop.
\<close>

fun notifier_loop ::
  "watcher \<Rightarrow> (event \<Rightarrow> 'st \<Rightarrow> error option \<times> 'st) \<Rightarrow> event list \<Rightarrow> 'st \<Rightarrow> error option \<times> 'st" where
  "notifier_loop w handle_event [] s = (None, s)"
| "notifier_loop w handle_event (ev # evs) s =
     (case FileModifyWatcher_handle w handle_event ev s of
        (Some e, s') \<Rightarrow> (Some e, s')
      | (None, s') \<Rightarrow> notifier_loop w handle_event evs s')"

text \<open>
  \<^verbatim>\<open>FileModifyWatcher.loop(self, loop_callback)\<close> (lines 204 to 222): one
  \<^verbatim>\<open>wm.add_watch(watch_this, mask)\<close> for each element of \<^verbatim>\<open>self.watch_dirs\<close>, then the
  notifier's loop.
\<close>

definition FileModifyWatcher_loop ::
  "watcher \<Rightarrow> (event \<Rightarrow> run_state \<Rightarrow> error option \<times> run_state) \<Rightarrow> event list \<Rightarrow>
   run_state \<Rightarrow> error option \<times> run_state" where
  "FileModifyWatcher_loop w handle_event evs s =
     notifier_loop w handle_event evs (s\<lparr>watches := watches s @ watch_dirs w\<rparr>)"

text \<open>
  \<^verbatim>\<open>DoitAutoRun.handle_event\<close> (lines 235 to 237): \<^verbatim>\<open>doit_run(dependency_file, task_list,
  sys.stdout, filter_tasks, reporter='executed-only')\<close>; its result is dropped, an
  exception propagates.
\<close>

definition DoitAutoRun_handle_event ::
  "run_env \<Rightarrow> string \<Rightarrow> task list \<Rightarrow> string list option \<Rightarrow> event \<Rightarrow> run_state \<Rightarrow>
   error option \<times> run_state" where
  "DoitAutoRun_handle_event env dependency_file task_list filter_tasks ev s =
     (case doit_run env dependency_file task_list OutStream filter_tasks None False False
             ''executed-only'' s of
        (Inl e, s') \<Rightarrow> (Some e, s')
      | (Inr rc, s') \<Rightarrow> (None, s'))"

text \<open>
  The watcher \<^verbatim>\<open>doit_auto\<close> creates (lines 231 to 239): the files watched are the
  \<open>file_dep\<close> of the selected tasks, chained in order.
\<close>

definition doit_auto_watcher ::
  "os_path \<Rightarrow> task list \<Rightarrow> string list option \<Rightarrow> error + watcher" where
  "doit_auto_watcher os task_list filter_tasks =
     (case TaskSetup_process task_list filter_tasks of
        Inl e \<Rightarrow> Inl e
      | Inr selected_tasks \<Rightarrow> Inr (FileModifyWatcher os (concat (map file_dep selected_tasks))))"

text \<open>\<^verbatim>\<open>doit_auto(dependency_file, task_list, filter_tasks, loop_callback)\<close>\<close>

definition doit_auto ::
  "run_env \<Rightarrow> os_path \<Rightarrow> string \<Rightarrow> task list \<Rightarrow> string list option \<Rightarrow> event list \<Rightarrow>
   run_state \<Rightarrow> error option \<times> run_state" where
  "doit_auto env os dependency_file task_list filter_tasks evs s =
     (case doit_auto_watcher os task_list filter_tasks of
        Inl e \<Rightarrow> (Some e, s)
      | Inr fw \<Rightarrow>
          FileModifyWatcher_loop fw
            (DoitAutoRun_handle_event env dependency_file task_list filter_tasks) evs s)"

subsection \<open>Tasks and states for the instances\<close>

text \<open>A task with one action and no dependency, and a group task with the given members.\<close>

definition leaf_task :: "string \<Rightarrow> task" where
  "leaf_task n =
     \<lparr>name = n, actions = [CmdAction ''true''], file_dep = [], task_dep = [],
      targets = [], doc = None, is_subtask = False\<rparr>"

definition group_task :: "string \<Rightarrow> string list \<Rightarrow> task" where
  "group_task n members =
     \<lparr>name = n, actions = [], file_dep = [], task_dep = members,
      targets = [], doc = None, is_subtask = False\<rparr>"

text \<open>A record with no fingerprint, not ignored; a store that holds one for each name.\<close>

definition fresh_record :: dep_record where
  "fresh_record = \<lparr>fingerprints = Map.empty, ignored = False\<rparr>"

definition store_of :: "string list \<Rightarrow> cmd_state" where
  "store_of ns = \<lparr>records = map_of (map (\<lambda>n. (n, fresh_record)) ns), calls = [], out = []\<rparr>"

text \<open>
  An environment for \<^verbatim>\<open>doit_run\<close>: two reporters registered, a runner that returns 0, every
  file can be opened. Paths for \<^verbatim>\<open>doit_auto\<close>: the current directory is \<^verbatim>\<open>/w\<close>, and the
  directory of a path is what stands before its last slash. These two functions stand
  for \<^verbatim>\<open>os.path\<close> only on relative paths without \<^verbatim>\<open>.\<close> or \<^verbatim>\<open>..\<close> and on paths below the
  root directory (they do not normalise a path); the instance of \<^verbatim>\<open>doit_auto\<close> below uses
  such paths.
\<close>

definition example_env :: run_env where
  "example_env =
     \<lparr>REPORTERS = [''default'' \<mapsto> ''ConsoleReporter'',
                   ''executed-only'' \<mapsto> ''ExecutedOnlyReporter''],
      DEFAULT_VERBOSITY = 1,
      run_tasks = (\<lambda>c. Inr 0),
      can_open = (\<lambda>p. True)\<rparr>"

definition example_os :: os_path where
  "example_os =
     \<lparr>abspath = (\<lambda>p. if take 1 p = ''/'' then p else ''/w/'' @ p),
      dirname = (\<lambda>p. rev (tl (dropWhile (\<lambda>c. c \<noteq> CHR ''/'') (rev p))))\<rparr>"

definition empty_run_state :: run_state where
  "empty_run_state = \<lparr>opened = [], closed = [], runner_calls = [], watches = []\<rparr>"

section \<open>Properties\<close>

subsection \<open>The steps of the work-list loops\<close>

lemma tasks_dict_name: "tasks_dict taskList n = Some t \<Longrightarrow> name t = n"
  unfolding tasks_dict_def by (auto dest!: map_of_SomeD)

lemma forget_group_Nil: "forget_group tasks [] s = Some (None, s)"
  by (subst forget_group.simps) simp

lemma forget_group_missing:
  "tasks x = None \<Longrightarrow> forget_group tasks (x # rest) s = Some (Some (KeyError x), s)"
  by (subst forget_group.simps) simp

lemma forget_group_step:
  "tasks x = Some t \<Longrightarrow>
   forget_group tasks (x # rest) s =
     forget_group tasks (if actions t = [] then rest @ task_dep t else rest)
       (outstream_write (''forgeting '' @ x @ ''\<newline>'') (Dependency_remove x s))"
  by (subst forget_group.simps) simp

lemma ignore_group_Nil: "ignore_group tasks [] s = Some (None, s)"
  by (subst ignore_group.simps) simp

lemma ignore_group_missing:
  "tasks x = None \<Longrightarrow> ignore_group tasks (x # rest) s = Some (Some (KeyError x), s)"
  by (subst ignore_group.simps) simp

lemma ignore_group_step:
  "tasks x = Some t \<Longrightarrow>
   ignore_group tasks (x # rest) s =
     ignore_group tasks (if actions t = [] then rest @ task_dep t else rest)
       (outstream_write (''ignoring '' @ x @ ''\<newline>'') (Dependency_ignore t s))"
  by (subst ignore_group.simps) simp

lemma calls_simps [simp]:
  "calls (outstream_write x s) = calls s"
  "calls (Dependency_remove n s) = calls s @ [DepRemove n]"
  "calls (Dependency_ignore t s) = calls s @ [DepIgnore (name t)]"
  "calls (Dependency_close s) = calls s @ [DepClose]"
  "calls (Dependency db s) = calls s @ [DepOpen db]"
  "calls (Dependency_remove_all s) = calls s @ [DepRemoveAll]"
  by (simp_all add: outstream_write_def Dependency_remove_def Dependency_ignore_def
      Dependency_close_def Dependency_def Dependency_remove_all_def)

lemma records_simps [simp]:
  "records (outstream_write x s) = records s"
  "records (Dependency_remove n s) = (records s)(n := None)"
  "records (Dependency_close s) = records s"
  "records (Dependency db s) = records s"
  "records (Dependency_remove_all s) = Map.empty"
  by (simp_all add: outstream_write_def Dependency_remove_def
      Dependency_close_def Dependency_def Dependency_remove_all_def)

lemma forget_group_calls:
  assumes "forget_group tasks grp s = Some y"
  shows "\<exists>ns. calls (snd y) = calls s @ map DepRemove ns \<and> (fst y = None \<longrightarrow> set grp \<subseteq> set ns)"
  using assms
proof (induction tasks grp s y rule: forget_group.raw_induct[rotated, consumes 1])
  case (1 fg tasks grp s y)
  show ?case
  proof (cases grp)
    case Nil
    with 1(2) have "y = (None, s)" by simp
    then have "calls (snd y) = calls s @ map DepRemove []" by simp
    then show ?thesis using Nil by (intro exI[of _ "[]"]) simp
  next
    case (Cons x rest)
    show ?thesis
    proof (cases "tasks x")
      case None
      with 1(2) Cons have "y = (Some (KeyError x), s)" by simp
      then have "calls (snd y) = calls s @ map DepRemove [] \<and> fst y \<noteq> None" by simp
      then show ?thesis by (intro exI[of _ "[]"]) auto
    next
      case (Some t)
      let ?g = "if actions t = [] then rest @ task_dep t else rest"
      let ?s1 = "outstream_write (''forgeting '' @ x @ ''\<newline>'') (Dependency_remove x s)"
      from 1(2) Cons Some have "fg tasks ?g ?s1 = Some y" by simp
      from 1(1)[OF this] obtain ns where ns: "calls (snd y) = calls ?s1 @ map DepRemove ns"
        "fst y = None \<longrightarrow> set ?g \<subseteq> set ns" by (elim exE conjE) (rule that)
      have "calls (snd y) = calls s @ map DepRemove (x # ns)" using ns(1) by simp
      moreover have "fst y = None \<longrightarrow> set grp \<subseteq> set (x # ns)"
        using ns(2) Cons by (auto split: if_splits)
      ultimately show ?thesis by (intro exI[of _ "x # ns"] conjI)
    qed
  qed
qed

lemma ignore_group_calls:
  assumes "ignore_group tasks grp s = Some y"
  shows "\<exists>ns. calls (snd y) = calls s @ map DepIgnore ns"
  using assms
proof (induction tasks grp s y rule: ignore_group.raw_induct[rotated, consumes 1])
  case (1 fg tasks grp s y)
  show ?case
  proof (cases grp)
    case Nil
    with 1(2) have "y = (None, s)" by simp
    then have "calls (snd y) = calls s @ map DepIgnore []" by simp
    then show ?thesis by (intro exI[of _ "[]"])
  next
    case (Cons x rest)
    show ?thesis
    proof (cases "tasks x")
      case None
      with 1(2) Cons have "y = (Some (KeyError x), s)" by simp
      then have "calls (snd y) = calls s @ map DepIgnore []" by simp
      then show ?thesis by (intro exI[of _ "[]"])
    next
      case (Some t)
      let ?g = "if actions t = [] then rest @ task_dep t else rest"
      let ?s1 = "outstream_write (''ignoring '' @ x @ ''\<newline>'') (Dependency_ignore t s)"
      from 1(2) Cons Some have "fg tasks ?g ?s1 = Some y" by simp
      from 1(1)[OF this] obtain ns where ns: "calls (snd y) = calls ?s1 @ map DepIgnore ns"
        by (elim exE) (rule that)
      have "calls (snd y) = calls s @ map DepIgnore (name t # ns)" using ns(1) by simp
      then show ?thesis by (intro exI[of _ "name t # ns"])
    qed
  qed
qed

lemma forget_names_calls:
  "forget_names tasks names s = Some y \<Longrightarrow>
   \<exists>ns. calls (snd y) = calls s @ map DepRemove ns"
proof (induction names arbitrary: s)
  case Nil
  then have "calls (snd y) = calls s @ map DepRemove []" by auto
  then show ?case by (intro exI[of _ "[]"])
next
  case (Cons n names)
  show ?case
  proof (cases "tasks n = None")
    case True
    with Cons.prems have "calls (snd y) = calls s @ map DepRemove []" by auto
    then show ?thesis by (intro exI[of _ "[]"])
  next
    case False
    with Cons.prems obtain r s1 where g: "forget_group tasks [n] s = Some (r, s1)"
      by (auto split: option.splits)
    from forget_group_calls[OF g] obtain ns1 where
      ns1: "calls s1 = calls s @ map DepRemove ns1" by auto
    show ?thesis
    proof (cases r)
      case None
      with Cons.prems False g have "forget_names tasks names s1 = Some y" by simp
      from Cons.IH[OF this] obtain ns2 where "calls (snd y) = calls s1 @ map DepRemove ns2"
        by (elim exE) (rule that)
      then have "calls (snd y) = calls s @ map DepRemove (ns1 @ ns2)" using ns1 by simp
      then show ?thesis by (intro exI[of _ "ns1 @ ns2"])
    next
      case (Some e)
      with Cons.prems False g have "y = (Some e, s1)" by simp
      then show ?thesis using ns1 by auto
    qed
  qed
qed

lemma ignore_names_calls:
  "ignore_names tasks names s = Some y \<Longrightarrow>
   \<exists>ns. calls (snd y) = calls s @ map DepIgnore ns"
proof (induction names arbitrary: s)
  case Nil
  then have "calls (snd y) = calls s @ map DepIgnore []" by auto
  then show ?case by (intro exI[of _ "[]"])
next
  case (Cons n names)
  show ?case
  proof (cases "tasks n = None")
    case True
    with Cons.prems have "calls (snd y) = calls s @ map DepIgnore []" by auto
    then show ?thesis by (intro exI[of _ "[]"])
  next
    case False
    with Cons.prems obtain r s1 where g: "ignore_group tasks [n] s = Some (r, s1)"
      by (auto split: option.splits)
    from ignore_group_calls[OF g] obtain ns1 where
      ns1: "calls s1 = calls s @ map DepIgnore ns1" by auto
    show ?thesis
    proof (cases r)
      case None
      with Cons.prems False g have "ignore_names tasks names s1 = Some y" by simp
      from Cons.IH[OF this] obtain ns2 where "calls (snd y) = calls s1 @ map DepIgnore ns2"
        by (elim exE) (rule that)
      then have "calls (snd y) = calls s @ map DepIgnore (ns1 @ ns2)" using ns1 by simp
      then show ?thesis by (intro exI[of _ "ns1 @ ns2"])
    next
      case (Some e)
      with Cons.prems False g have "y = (Some e, s1)" by simp
      then show ?thesis using ns1 by auto
    qed
  qed
qed

lemma forget_names_unknown:
  "tasks bad = None \<Longrightarrow>
   forget_names tasks (pre @ bad # post) s =
     (case forget_names tasks pre s of
        Some (None, s') \<Rightarrow> Some (Some (InvalidCommand (not_a_task bad)), s')
      | r \<Rightarrow> r)"
  by (induction pre arbitrary: s) (auto split: option.splits)

lemma ignore_names_unknown:
  "tasks bad = None \<Longrightarrow>
   ignore_names tasks (pre @ bad # post) s =
     (case ignore_names tasks pre s of
        Some (None, s') \<Rightarrow> Some (Some (InvalidCommand (not_a_task bad)), s')
      | r \<Rightarrow> r)"
  by (induction pre arbitrary: s) (auto split: option.splits)


lemma forget_group_Cons:
  "forget_group tasks (x # rest) s =
     (case tasks x of
        None \<Rightarrow> Some (Some (KeyError x), s)
      | Some t \<Rightarrow>
          forget_group tasks (if actions t = [] then rest @ task_dep t else rest)
            (outstream_write (''forgeting '' @ x @ ''\<newline>'') (Dependency_remove x s)))"
  by (subst forget_group.simps) simp

lemma ignore_group_Cons:
  "ignore_group tasks (x # rest) s =
     (case tasks x of
        None \<Rightarrow> Some (Some (KeyError x), s)
      | Some t \<Rightarrow>
          ignore_group tasks (if actions t = [] then rest @ task_dep t else rest)
            (outstream_write (''ignoring '' @ x @ ''\<newline>'') (Dependency_ignore t s)))"
  by (subst ignore_group.simps) simp

lemmas eval_simps =
  forget_group_Cons forget_group_Nil ignore_group_Cons ignore_group_Nil
  doit_forget_def doit_ignore_def tasks_dict_def leaf_task_def group_task_def
  store_of_def fresh_record_def Let_def


lemma records_ignore [simp]:
  "records (Dependency_ignore t s) =
     (records s)(name t \<mapsto>
        (case records s (name t) of
           None \<Rightarrow> \<lparr>fingerprints = Map.empty, ignored = True\<rparr>
         | Some r \<Rightarrow> r\<lparr>ignored := True\<rparr>))"
  by (simp add: Dependency_ignore_def)

subsection \<open>Termination of the work-list loops\<close>

lemma finite_group_edges: "finite (group_edges (tasks_dict taskList))"
proof -
  let ?T = "tasks_dict taskList"
  have "group_edges ?T \<subseteq> (\<Union>a\<in>dom ?T. {a} \<times> set (task_dep (the (?T a))))"
    by (auto simp: group_edges_def)
  moreover have "finite (dom ?T)"
    by (simp add: tasks_dict_def finite_dom_map_of)
  ultimately show ?thesis
    by (rule_tac finite_subset) auto
qed

lemma reachable_names_step:
  "a \<in> reachable_names tasks names \<Longrightarrow> (a, b) \<in> group_edges tasks \<Longrightarrow>
   b \<in> reachable_names tasks names"
  unfolding reachable_names_def by (meson Image_iff rtrancl.rtrancl_into_rtrancl)

lemma reachable_names_base: "set names \<subseteq> reachable_names tasks names"
  unfolding reachable_names_def by auto

lemma worklist_terminates:
  fixes f :: "string list \<Rightarrow> 'st \<Rightarrow> 'r option"
  assumes wf: "wf r"
    and edge: "\<And>a t b. a \<in> R \<Longrightarrow> tasks a = Some t \<Longrightarrow> actions t = [] \<Longrightarrow>
                 b \<in> set (task_dep t) \<Longrightarrow> b \<in> R \<and> (b, a) \<in> r"
    and nil: "\<And>s. f [] s \<noteq> None"
    and miss: "\<And>x rest s. tasks x = None \<Longrightarrow> f (x # rest) s \<noteq> None"
    and step: "\<And>x rest s t. tasks x = Some t \<Longrightarrow>
                 \<exists>s'. f (x # rest) s =
                      f (if actions t = [] then rest @ task_dep t else rest) s'"
  shows "set grp \<subseteq> R \<Longrightarrow> f grp s \<noteq> None"
proof -
  have wfm: "wf (mult1 r)" by (rule wf_mult1[OF wf])
  have "\<forall>grp s. mset grp = M \<longrightarrow> set grp \<subseteq> R \<longrightarrow> f grp s \<noteq> None" for M
    using wfm
  proof (induction M rule: wf_induct_rule)
    case (less M)
    show ?case
    proof (intro allI impI)
      fix grp s
      assume M: "mset grp = M" and sub: "set grp \<subseteq> R"
      show "f grp s \<noteq> None"
      proof (cases grp)
        case Nil
        then show ?thesis using nil by simp
      next
        case (Cons x rest)
        show ?thesis
        proof (cases "tasks x")
          case None
          then show ?thesis using miss Cons by simp
        next
          case (Some t)
          let ?g = "if actions t = [] then rest @ task_dep t else rest"
          let ?K = "if actions t = [] then mset (task_dep t) else {#}"
          obtain s' where eq: "f (x # rest) s = f ?g s'"
            using step[OF Some] by blast
          have xR: "x \<in> R" using sub Cons by simp
          have "(mset ?g, M) \<in> mult1 r"
          proof (rule mult1I[where a = x and ?M0.0 = "mset rest" and K = ?K])
            show "M = add_mset x (mset rest)" using M Cons by simp
            show "mset ?g = mset rest + ?K" by simp
            fix b assume "b \<in># ?K"
            then show "(b, x) \<in> r"
              using edge[OF xR Some] by (auto split: if_splits)
          qed
          moreover have "set ?g \<subseteq> R"
            using sub Cons edge[OF xR Some] by (auto split: if_splits)
          ultimately have "f ?g s' \<noteq> None" using less by blast
          then show ?thesis using eq Cons by simp
        qed
      qed
    qed
  qed
  then show "set grp \<subseteq> R \<Longrightarrow> f grp s \<noteq> None" by blast
qed

lemma wf_reachable_edges:
  assumes "acyclic (reachable_edges (tasks_dict taskList) names)"
  shows "wf ((reachable_edges (tasks_dict taskList) names)\<inverse>)"
proof (rule finite_acyclic_wf_converse[OF _ assms])
  have "reachable_edges (tasks_dict taskList) names \<subseteq> group_edges (tasks_dict taskList)"
    by (auto simp: reachable_edges_def)
  then show "finite (reachable_edges (tasks_dict taskList) names)"
    using finite_group_edges finite_subset by blast
qed

lemma reachable_edge:
  assumes "a \<in> reachable_names T names" "T a = Some t" "actions t = []" "b \<in> set (task_dep t)"
  shows "b \<in> reachable_names T names \<and> (b, a) \<in> (reachable_edges T names)\<inverse>"
proof -
  have e: "(a, b) \<in> group_edges T" using assms by (auto simp: group_edges_def)
  then show ?thesis
    using reachable_names_step[OF assms(1) e] assms(1) by (simp add: reachable_edges_def)
qed

lemma forget_group_terminates:
  assumes "acyclic (reachable_edges (tasks_dict taskList) names)"
    and "set grp \<subseteq> reachable_names (tasks_dict taskList) names"
  shows "forget_group (tasks_dict taskList) grp s \<noteq> None"
proof (rule worklist_terminates[OF wf_reachable_edges[OF assms(1)],
      where tasks = "tasks_dict taskList"
      and R = "reachable_names (tasks_dict taskList) names"
      and f = "forget_group (tasks_dict taskList)"])
  show "set grp \<subseteq> reachable_names (tasks_dict taskList) names" by (rule assms(2))
next
  fix a t b
  assume "a \<in> reachable_names (tasks_dict taskList) names" "tasks_dict taskList a = Some t"
    "actions t = []" "b \<in> set (task_dep t)"
  then show "b \<in> reachable_names (tasks_dict taskList) names \<and>
       (b, a) \<in> (reachable_edges (tasks_dict taskList) names)\<inverse>"
    by (rule reachable_edge)
next
  fix x rest s t
  assume "tasks_dict taskList x = Some t"
  then show "\<exists>s'. forget_group (tasks_dict taskList) (x # rest) s =
       forget_group (tasks_dict taskList) (if actions t = [] then rest @ task_dep t else rest) s'"
    using forget_group_step by blast
qed (simp_all add: forget_group_Nil forget_group_missing)

lemma ignore_group_terminates:
  assumes "acyclic (reachable_edges (tasks_dict taskList) names)"
    and "set grp \<subseteq> reachable_names (tasks_dict taskList) names"
  shows "ignore_group (tasks_dict taskList) grp s \<noteq> None"
proof (rule worklist_terminates[OF wf_reachable_edges[OF assms(1)],
      where tasks = "tasks_dict taskList"
      and R = "reachable_names (tasks_dict taskList) names"
      and f = "ignore_group (tasks_dict taskList)"])
  show "set grp \<subseteq> reachable_names (tasks_dict taskList) names" by (rule assms(2))
next
  fix a t b
  assume "a \<in> reachable_names (tasks_dict taskList) names" "tasks_dict taskList a = Some t"
    "actions t = []" "b \<in> set (task_dep t)"
  then show "b \<in> reachable_names (tasks_dict taskList) names \<and>
       (b, a) \<in> (reachable_edges (tasks_dict taskList) names)\<inverse>"
    by (rule reachable_edge)
next
  fix x rest s t
  assume "tasks_dict taskList x = Some t"
  then show "\<exists>s'. ignore_group (tasks_dict taskList) (x # rest) s =
       ignore_group (tasks_dict taskList) (if actions t = [] then rest @ task_dep t else rest) s'"
    using ignore_group_step by blast
qed (simp_all add: ignore_group_Nil ignore_group_missing)

lemma forget_names_terminates:
  assumes "acyclic (reachable_edges (tasks_dict taskList) names)"
  shows "set ns \<subseteq> set names \<Longrightarrow> forget_names (tasks_dict taskList) ns s \<noteq> None"
proof (induction ns arbitrary: s)
  case Nil
  then show ?case by simp
next
  case (Cons n ns)
  have "set [n] \<subseteq> reachable_names (tasks_dict taskList) names"
    using Cons.prems reachable_names_base[of names "tasks_dict taskList"] by auto
  then have "forget_group (tasks_dict taskList) [n] s \<noteq> None"
    by (rule forget_group_terminates[OF assms])
  then show ?case using Cons by (auto split: option.splits)
qed

lemma ignore_names_terminates:
  assumes "acyclic (reachable_edges (tasks_dict taskList) names)"
  shows "set ns \<subseteq> set names \<Longrightarrow> ignore_names (tasks_dict taskList) ns s \<noteq> None"
proof (induction ns arbitrary: s)
  case Nil
  then show ?case by simp
next
  case (Cons n ns)
  have "set [n] \<subseteq> reachable_names (tasks_dict taskList) names"
    using Cons.prems reachable_names_base[of names "tasks_dict taskList"] by auto
  then have "ignore_group (tasks_dict taskList) [n] s \<noteq> None"
    by (rule ignore_group_terminates[OF assms])
  then show ?case using Cons by (auto split: option.splits)
qed

lemma forget_group_self_loop:
  assumes "forget_group tasks grp s = Some y"
  shows "\<not> (grp \<noteq> [] \<and>
            (\<forall>n\<in>set grp. \<exists>t. tasks n = Some t \<and> actions t = [] \<and> task_dep t = [n]))"
  using assms
proof (induction tasks grp s y rule: forget_group.raw_induct[rotated, consumes 1])
  case (1 fg tasks grp s y)
  show ?case
  proof
    assume a: "grp \<noteq> [] \<and>
      (\<forall>n\<in>set grp. \<exists>t. tasks n = Some t \<and> actions t = [] \<and> task_dep t = [n])"
    then obtain x rest where Cons: "grp = x # rest" by (cases grp) auto
    with a obtain t where t: "tasks x = Some t" "actions t = []" "task_dep t = [x]" by auto
    let ?s1 = "outstream_write (''forgeting '' @ x @ ''\<newline>'') (Dependency_remove x s)"
    from 1(2) Cons t have "fg tasks (rest @ [x]) ?s1 = Some y" by simp
    from 1(1)[OF this] a Cons show False by auto
  qed
qed

lemma ignore_group_self_loop:
  assumes "ignore_group tasks grp s = Some y"
  shows "\<not> (grp \<noteq> [] \<and>
            (\<forall>n\<in>set grp. \<exists>t. tasks n = Some t \<and> actions t = [] \<and> task_dep t = [n]))"
  using assms
proof (induction tasks grp s y rule: ignore_group.raw_induct[rotated, consumes 1])
  case (1 fg tasks grp s y)
  show ?case
  proof
    assume a: "grp \<noteq> [] \<and>
      (\<forall>n\<in>set grp. \<exists>t. tasks n = Some t \<and> actions t = [] \<and> task_dep t = [n])"
    then obtain x rest where Cons: "grp = x # rest" by (cases grp) auto
    with a obtain t where t: "tasks x = Some t" "actions t = []" "task_dep t = [x]" by auto
    let ?s1 = "outstream_write (''ignoring '' @ x @ ''\<newline>'') (Dependency_ignore t s)"
    from 1(2) Cons t have "fg tasks (rest @ [x]) ?s1 = Some y" by simp
    from 1(1)[OF this] a Cons show False by auto
  qed
qed

lemma self_loop_diverges:
  "doit_forget dbFileName [group_task ''g'' [''g'']] [''g''] s = None"
  "doit_ignore dbFileName [group_task ''g'' [''g'']] [''g''] s = None"
proof -
  let ?T = "tasks_dict [group_task ''g'' [''g'']]"
  have T: "?T ''g'' = Some (group_task ''g'' [''g''])"
    by (simp add: tasks_dict_def group_task_def)
  have c: "[''g''] \<noteq> [] \<and>
     (\<forall>n\<in>set [''g'']. \<exists>t. ?T n = Some t \<and> actions t = [] \<and> task_dep t = [n])"
    using T by (simp add: group_task_def)
  have "forget_group ?T [''g''] s' = None" for s'
    using forget_group_self_loop[of ?T "[''g'']" s'] c by (cases "forget_group ?T [''g''] s'") auto
  then show "doit_forget dbFileName [group_task ''g'' [''g'']] [''g''] s = None"
    using T by (simp add: doit_forget_def)
  have "ignore_group ?T [''g''] s' = None" for s'
    using ignore_group_self_loop[of ?T "[''g'']" s'] c by (cases "ignore_group ?T [''g''] s'") auto
  then show "doit_ignore dbFileName [group_task ''g'' [''g'']] [''g''] s = None"
    using T by (simp add: doit_ignore_def)
qed

lemma example_graph_acyclic:
  "acyclic (reachable_edges
     (tasks_dict [leaf_task ''x'', leaf_task ''y'', group_task ''g'' [''x'', ''y'']]) [''g''])"
proof (rule acyclicI_order[where f = "\<lambda>n. if n = ''g'' then (1::nat) else 0"])
  fix a b
  assume "(a, b) \<in> reachable_edges
     (tasks_dict [leaf_task ''x'', leaf_task ''y'', group_task ''g'' [''x'', ''y'']]) [''g'']"
  then have "a = ''g'' \<and> b \<noteq> ''g''"
    by (auto simp: reachable_edges_def group_edges_def tasks_dict_def leaf_task_def
        group_task_def split: if_splits)
  then show "(if b = ''g'' then (1::nat) else 0) < (if a = ''g'' then 1 else 0)" by simp
qed

subsection \<open>What the work-list loops do when they return\<close>

lemma rtrancl_Image_step: "r\<^sup>* `` {x} = insert x (r\<^sup>* `` (r `` {x}))"
  by (auto elim: converse_rtranclE intro: converse_rtrancl_into_rtrancl)

lemma group_edges_Image:
  "tasks x = Some t \<Longrightarrow>
   group_edges tasks `` {x} = (if actions t = [] then set (task_dep t) else {})"
  by (auto simp: group_edges_def)

lemma reachable_Cons:
  assumes "tasks x = Some t"
  shows "(group_edges tasks)\<^sup>* `` set (x # rest) =
         insert x ((group_edges tasks)\<^sup>* ``
            set (if actions t = [] then rest @ task_dep t else rest))"
proof -
  have "(group_edges tasks)\<^sup>* `` set (x # rest) =
        (group_edges tasks)\<^sup>* `` {x} \<union> (group_edges tasks)\<^sup>* `` set rest"
    by auto
  also have "(group_edges tasks)\<^sup>* `` {x} =
        insert x ((group_edges tasks)\<^sup>* `` (group_edges tasks `` {x}))"
    by (rule rtrancl_Image_step)
  finally show ?thesis
    unfolding group_edges_Image[of tasks x t, OF assms] by (auto split: if_splits)
qed

lemma worklist_total:
  fixes f :: "string list \<Rightarrow> cmd_state \<Rightarrow> outcome option" and c :: "string \<Rightarrow> dep_call"
  assumes wf: "wf r"
    and edge: "\<And>a t b. a \<in> R \<Longrightarrow> tasks a = Some t \<Longrightarrow> actions t = [] \<Longrightarrow>
                 b \<in> set (task_dep t) \<Longrightarrow> b \<in> R \<and> (b, a) \<in> r"
    and known: "\<And>a. a \<in> R \<Longrightarrow> tasks a \<noteq> None"
    and nil: "\<And>s. f [] s = Some (None, s)"
    and step: "\<And>x rest s t. tasks x = Some t \<Longrightarrow>
                 \<exists>s1. calls s1 = calls s @ [c x] \<and>
                      f (x # rest) s =
                        f (if actions t = [] then rest @ task_dep t else rest) s1"
  shows "set grp \<subseteq> R \<Longrightarrow>
         \<exists>s' ns. f grp s = Some (None, s') \<and> calls s' = calls s @ map c ns
            \<and> set ns = (group_edges tasks)\<^sup>* `` set grp
            \<and> take 1 ns = take 1 grp
            \<and> (\<forall>pre G suf g. ns = pre @ G # suf \<longrightarrow> tasks G = Some g \<longrightarrow> actions g = []
                   \<longrightarrow> set (task_dep g) \<subseteq> set suf)"
proof -
  have wfm: "wf (mult1 r)" by (rule wf_mult1[OF wf])
  have "\<forall>grp s. mset grp = M \<longrightarrow> set grp \<subseteq> R \<longrightarrow>
          (\<exists>s' ns. f grp s = Some (None, s') \<and> calls s' = calls s @ map c ns
            \<and> set ns = (group_edges tasks)\<^sup>* `` set grp
            \<and> take 1 ns = take 1 grp
            \<and> (\<forall>pre G suf g. ns = pre @ G # suf \<longrightarrow> tasks G = Some g \<longrightarrow> actions g = []
                   \<longrightarrow> set (task_dep g) \<subseteq> set suf))" for M
    using wfm
  proof (induction M rule: wf_induct_rule)
    case (less M)
    show ?case
    proof (intro allI impI)
      fix grp s
      assume M: "mset grp = M" and sub: "set grp \<subseteq> R"
      show "\<exists>s' ns. f grp s = Some (None, s') \<and> calls s' = calls s @ map c ns
            \<and> set ns = (group_edges tasks)\<^sup>* `` set grp
            \<and> take 1 ns = take 1 grp
            \<and> (\<forall>pre G suf g. ns = pre @ G # suf \<longrightarrow> tasks G = Some g \<longrightarrow> actions g = []
                   \<longrightarrow> set (task_dep g) \<subseteq> set suf)"
      proof (cases grp)
        case Nil
        have "f grp s = Some (None, s) \<and> calls s = calls s @ map c []
            \<and> set [] = (group_edges tasks)\<^sup>* `` set grp
            \<and> take 1 [] = take 1 grp
            \<and> (\<forall>pre G suf g. [] = pre @ G # suf \<longrightarrow> tasks G = Some g \<longrightarrow> actions g = []
                   \<longrightarrow> set (task_dep g) \<subseteq> set suf)"
          using Nil nil by simp
        then show ?thesis by (intro exI[of _ s] exI[of _ "[]"])
      next
        case (Cons x rest)
        have xR: "x \<in> R" using sub Cons by simp
        then obtain t where t: "tasks x = Some t" using known by fastforce
        let ?g = "if actions t = [] then rest @ task_dep t else rest"
        let ?K = "if actions t = [] then mset (task_dep t) else {#}"
        obtain s1 where s1: "calls s1 = calls s @ [c x]" "f (x # rest) s = f ?g s1"
          using step[OF t, of s rest] by (elim exE conjE) (rule that)
        have m1: "(mset ?g, M) \<in> mult1 r"
        proof (rule mult1I[where a = x and ?M0.0 = "mset rest" and K = ?K])
          show "M = add_mset x (mset rest)" using M Cons by simp
          show "mset ?g = mset rest + ?K" by simp
          fix b assume "b \<in># ?K"
          then show "(b, x) \<in> r"
            using edge[OF xR t] by (auto split: if_splits)
        qed
        have gR: "set ?g \<subseteq> R"
          using sub Cons edge[OF xR t] by (auto split: if_splits)
        have "\<exists>s' ns. f ?g s1 = Some (None, s') \<and> calls s' = calls s1 @ map c ns
            \<and> set ns = (group_edges tasks)\<^sup>* `` set ?g
            \<and> take 1 ns = take 1 ?g
            \<and> (\<forall>pre G suf g. ns = pre @ G # suf \<longrightarrow> tasks G = Some g \<longrightarrow> actions g = []
                   \<longrightarrow> set (task_dep g) \<subseteq> set suf)"
          using less[OF m1, rule_format, of ?g s1] gR by simp
        then obtain s' ns' where ih:
          "f ?g s1 = Some (None, s')" "calls s' = calls s1 @ map c ns'"
          "set ns' = (group_edges tasks)\<^sup>* `` set ?g"
          "\<forall>pre G suf g. ns' = pre @ G # suf \<longrightarrow> tasks G = Some g \<longrightarrow> actions g = []
                   \<longrightarrow> set (task_dep g) \<subseteq> set suf"
          by (elim exE conjE) (rule that)
        have a: "f grp s = Some (None, s')" using ih(1) s1(2) Cons by simp
        have b: "calls s' = calls s @ map c (x # ns')" using ih(2) s1(1) by simp
        have d: "set (x # ns') = (group_edges tasks)\<^sup>* `` set grp"
          unfolding Cons reachable_Cons[of tasks x t rest, OF t] using ih(3) by simp
        have e: "take 1 (x # ns') = take 1 grp" using Cons by simp
        have mem: "set ?g \<subseteq> set ns'" unfolding ih(3) by auto
        have o: "\<forall>pre G suf g. x # ns' = pre @ G # suf \<longrightarrow> tasks G = Some g \<longrightarrow> actions g = []
                   \<longrightarrow> set (task_dep g) \<subseteq> set suf"
        proof (intro allI impI)
          fix pre G suf g
          assume eq: "x # ns' = pre @ G # suf" and G: "tasks G = Some g" "actions g = []"
          show "set (task_dep g) \<subseteq> set suf"
          proof (cases pre)
            case Nil
            with eq have "G = x" "suf = ns'" by simp_all
            with G t have "g = t" by simp
            with G(2) mem \<open>suf = ns'\<close> show ?thesis by auto
          next
            case (Cons p pre')
            with eq have "ns' = pre' @ G # suf" by simp
            with ih(4) G show ?thesis by blast
          qed
        qed
        show ?thesis using a b d e o by (intro exI[of _ s'] exI[of _ "x # ns'"] conjI)
      qed
    qed
  qed
  then show "set grp \<subseteq> R \<Longrightarrow>
         \<exists>s' ns. f grp s = Some (None, s') \<and> calls s' = calls s @ map c ns
            \<and> set ns = (group_edges tasks)\<^sup>* `` set grp
            \<and> take 1 ns = take 1 grp
            \<and> (\<forall>pre G suf g. ns = pre @ G # suf \<longrightarrow> tasks G = Some g \<longrightarrow> actions g = []
                   \<longrightarrow> set (task_dep g) \<subseteq> set suf)"
    by blast
qed

lemma members_after_append:
  fixes tasks :: "string \<rightharpoonup> task"
  assumes 1: "\<forall>pre G suf g. ns1 = pre @ G # suf \<longrightarrow> tasks G = Some g \<longrightarrow> actions g = []
                   \<longrightarrow> set (task_dep g) \<subseteq> set suf"
    and 2: "\<forall>pre G suf g. ns2 = pre @ G # suf \<longrightarrow> tasks G = Some g \<longrightarrow> actions g = []
                   \<longrightarrow> set (task_dep g) \<subseteq> set suf"
  shows "\<forall>pre G suf g. ns1 @ ns2 = pre @ G # suf \<longrightarrow> tasks G = Some g \<longrightarrow> actions g = []
                   \<longrightarrow> set (task_dep g) \<subseteq> set suf"
proof (intro allI impI)
  fix pre G suf and g :: task
  assume eq: "ns1 @ ns2 = pre @ G # suf" and G: "tasks G = Some g" "actions g = []"
  from eq obtain us where
    us: "(ns1 = pre @ us \<and> us @ ns2 = G # suf) \<or> (ns1 @ us = pre \<and> ns2 = us @ G # suf)"
    unfolding append_eq_append_conv2 by blast
  show "set (task_dep g) \<subseteq> set suf"
  proof (cases "ns1 = pre @ us \<and> us @ ns2 = G # suf")
    case True
    show ?thesis
    proof (cases us)
      case Nil
      with True have "ns2 = [] @ G # suf" by simp
      with 2 G show ?thesis by blast
    next
      case (Cons u us')
      with True have "ns1 = pre @ G # us'" "suf = us' @ ns2" by simp_all
      with 1 G have "set (task_dep g) \<subseteq> set us'" by blast
      with \<open>suf = us' @ ns2\<close> show ?thesis by auto
    qed
  next
    case False
    with us have "ns2 = us @ G # suf" by blast
    with 2 G show ?thesis by blast
  qed
qed

lemma forget_group_total:
  assumes ac: "acyclic (reachable_edges (tasks_dict taskList) names)"
    and known: "reachable_names (tasks_dict taskList) names \<subseteq> dom (tasks_dict taskList)"
    and sub: "set grp \<subseteq> reachable_names (tasks_dict taskList) names"
  shows "\<exists>s' ns. forget_group (tasks_dict taskList) grp s = Some (None, s')
            \<and> calls s' = calls s @ map DepRemove ns
            \<and> set ns = (group_edges (tasks_dict taskList))\<^sup>* `` set grp
            \<and> take 1 ns = take 1 grp
            \<and> (\<forall>pre G suf g. ns = pre @ G # suf \<longrightarrow> tasks_dict taskList G = Some g \<longrightarrow>
                   actions g = [] \<longrightarrow> set (task_dep g) \<subseteq> set suf)"
proof (rule worklist_total[OF wf_reachable_edges[OF ac],
      where tasks = "tasks_dict taskList"
      and R = "reachable_names (tasks_dict taskList) names"
      and f = "forget_group (tasks_dict taskList)" and c = DepRemove])
  show "set grp \<subseteq> reachable_names (tasks_dict taskList) names" by (rule sub)
next
  fix a t b
  assume "a \<in> reachable_names (tasks_dict taskList) names" "tasks_dict taskList a = Some t"
    "actions t = []" "b \<in> set (task_dep t)"
  then show "b \<in> reachable_names (tasks_dict taskList) names \<and>
       (b, a) \<in> (reachable_edges (tasks_dict taskList) names)\<inverse>"
    by (rule reachable_edge)
next
  fix a assume "a \<in> reachable_names (tasks_dict taskList) names"
  then show "tasks_dict taskList a \<noteq> None" using known by auto
next
  fix s show "forget_group (tasks_dict taskList) [] s = Some (None, s)"
    by (rule forget_group_Nil)
next
  fix x rest s t
  assume t: "tasks_dict taskList x = Some t"
  let ?s1 = "outstream_write (''forgeting '' @ x @ ''\<newline>'') (Dependency_remove x s)"
  have "calls ?s1 = calls s @ [DepRemove x]" by simp
  moreover have "forget_group (tasks_dict taskList) (x # rest) s =
       forget_group (tasks_dict taskList) (if actions t = [] then rest @ task_dep t else rest) ?s1"
    using forget_group_step[where tasks = "tasks_dict taskList" and x = x and t = t] t by simp
  ultimately show "\<exists>s1. calls s1 = calls s @ [DepRemove x] \<and>
       forget_group (tasks_dict taskList) (x # rest) s =
       forget_group (tasks_dict taskList) (if actions t = [] then rest @ task_dep t else rest) s1"
    by (intro exI[of _ ?s1] conjI)
qed

lemma ignore_group_total:
  assumes ac: "acyclic (reachable_edges (tasks_dict taskList) names)"
    and known: "reachable_names (tasks_dict taskList) names \<subseteq> dom (tasks_dict taskList)"
    and sub: "set grp \<subseteq> reachable_names (tasks_dict taskList) names"
  shows "\<exists>s' ns. ignore_group (tasks_dict taskList) grp s = Some (None, s')
            \<and> calls s' = calls s @ map DepIgnore ns
            \<and> set ns = (group_edges (tasks_dict taskList))\<^sup>* `` set grp
            \<and> take 1 ns = take 1 grp
            \<and> (\<forall>pre G suf g. ns = pre @ G # suf \<longrightarrow> tasks_dict taskList G = Some g \<longrightarrow>
                   actions g = [] \<longrightarrow> set (task_dep g) \<subseteq> set suf)"
proof (rule worklist_total[OF wf_reachable_edges[OF ac],
      where tasks = "tasks_dict taskList"
      and R = "reachable_names (tasks_dict taskList) names"
      and f = "ignore_group (tasks_dict taskList)" and c = DepIgnore])
  show "set grp \<subseteq> reachable_names (tasks_dict taskList) names" by (rule sub)
next
  fix a t b
  assume "a \<in> reachable_names (tasks_dict taskList) names" "tasks_dict taskList a = Some t"
    "actions t = []" "b \<in> set (task_dep t)"
  then show "b \<in> reachable_names (tasks_dict taskList) names \<and>
       (b, a) \<in> (reachable_edges (tasks_dict taskList) names)\<inverse>"
    by (rule reachable_edge)
next
  fix a assume "a \<in> reachable_names (tasks_dict taskList) names"
  then show "tasks_dict taskList a \<noteq> None" using known by auto
next
  fix s show "ignore_group (tasks_dict taskList) [] s = Some (None, s)"
    by (rule ignore_group_Nil)
next
  fix x rest s t
  assume t: "tasks_dict taskList x = Some t"
  let ?s1 = "outstream_write (''ignoring '' @ x @ ''\<newline>'') (Dependency_ignore t s)"
  have "calls ?s1 = calls s @ [DepIgnore x]" using tasks_dict_name[OF t] by simp
  moreover have "ignore_group (tasks_dict taskList) (x # rest) s =
       ignore_group (tasks_dict taskList) (if actions t = [] then rest @ task_dep t else rest) ?s1"
    using ignore_group_step[where tasks = "tasks_dict taskList" and x = x and t = t] t by simp
  ultimately show "\<exists>s1. calls s1 = calls s @ [DepIgnore x] \<and>
       ignore_group (tasks_dict taskList) (x # rest) s =
       ignore_group (tasks_dict taskList) (if actions t = [] then rest @ task_dep t else rest) s1"
    by (intro exI[of _ ?s1] conjI)
qed

lemma forget_names_total:
  assumes ac: "acyclic (reachable_edges (tasks_dict taskList) names)"
    and known: "reachable_names (tasks_dict taskList) names \<subseteq> dom (tasks_dict taskList)"
  shows "set ns0 \<subseteq> set names \<Longrightarrow>
         \<exists>s' ns. forget_names (tasks_dict taskList) ns0 s = Some (None, s')
            \<and> calls s' = calls s @ map DepRemove ns
            \<and> set ns = (group_edges (tasks_dict taskList))\<^sup>* `` set ns0
            \<and> take 1 ns = take 1 ns0
            \<and> (\<forall>pre G suf g. ns = pre @ G # suf \<longrightarrow> tasks_dict taskList G = Some g \<longrightarrow>
                   actions g = [] \<longrightarrow> set (task_dep g) \<subseteq> set suf)"
proof (induction ns0 arbitrary: s)
  case Nil
  have "forget_names (tasks_dict taskList) [] s = Some (None, s)
            \<and> calls s = calls s @ map DepRemove []
            \<and> set [] = (group_edges (tasks_dict taskList))\<^sup>* `` set []
            \<and> take 1 [] = take 1 ([] :: string list)
            \<and> (\<forall>pre G suf g. [] = pre @ G # suf \<longrightarrow> tasks_dict taskList G = Some g \<longrightarrow>
                   actions g = [] \<longrightarrow> set (task_dep g) \<subseteq> set suf)"
    by simp
  then show ?case by (intro exI[of _ s] exI[of _ "[]"])
next
  case (Cons n rest)
  let ?T = "tasks_dict taskList"
  have nR: "set [n] \<subseteq> reachable_names ?T names"
    using Cons.prems reachable_names_base[of names ?T] by auto
  then have kn: "?T n \<noteq> None" using known by auto
  from forget_group_total[OF ac known nR, of s] obtain s1 ns1 where
    g: "forget_group ?T [n] s = Some (None, s1)" "calls s1 = calls s @ map DepRemove ns1"
    "set ns1 = (group_edges ?T)\<^sup>* `` set [n]" "take 1 ns1 = take 1 [n]"
    "\<forall>pre G suf g. ns1 = pre @ G # suf \<longrightarrow> ?T G = Some g \<longrightarrow>
                   actions g = [] \<longrightarrow> set (task_dep g) \<subseteq> set suf"
    by (elim exE conjE) (rule that)
  have "set rest \<subseteq> set names" using Cons.prems by simp
  from Cons.IH[OF this, of s1] obtain s' ns2 where
    r: "forget_names ?T rest s1 = Some (None, s')" "calls s' = calls s1 @ map DepRemove ns2"
    "set ns2 = (group_edges ?T)\<^sup>* `` set rest"
    "\<forall>pre G suf g. ns2 = pre @ G # suf \<longrightarrow> ?T G = Some g \<longrightarrow>
                   actions g = [] \<longrightarrow> set (task_dep g) \<subseteq> set suf"
    by (elim exE conjE) (rule that)
  have a: "forget_names ?T (n # rest) s = Some (None, s')" using kn g(1) r(1) by simp
  have b: "calls s' = calls s @ map DepRemove (ns1 @ ns2)" using g(2) r(2) by simp
  have c: "set (ns1 @ ns2) = (group_edges ?T)\<^sup>* `` set (n # rest)"
    using g(3) r(3) by auto
  have d: "take 1 (ns1 @ ns2) = take 1 (n # rest)"
    using g(4) by (cases ns1) simp_all
  note e = members_after_append[OF g(5) r(4)]
  show ?case using a b c d e by (intro exI[of _ s'] exI[of _ "ns1 @ ns2"] conjI)
qed

lemma ignore_names_total:
  assumes ac: "acyclic (reachable_edges (tasks_dict taskList) names)"
    and known: "reachable_names (tasks_dict taskList) names \<subseteq> dom (tasks_dict taskList)"
  shows "set ns0 \<subseteq> set names \<Longrightarrow>
         \<exists>s' ns. ignore_names (tasks_dict taskList) ns0 s = Some (None, s')
            \<and> calls s' = calls s @ map DepIgnore ns
            \<and> set ns = (group_edges (tasks_dict taskList))\<^sup>* `` set ns0
            \<and> take 1 ns = take 1 ns0
            \<and> (\<forall>pre G suf g. ns = pre @ G # suf \<longrightarrow> tasks_dict taskList G = Some g \<longrightarrow>
                   actions g = [] \<longrightarrow> set (task_dep g) \<subseteq> set suf)"
proof (induction ns0 arbitrary: s)
  case Nil
  have "ignore_names (tasks_dict taskList) [] s = Some (None, s)
            \<and> calls s = calls s @ map DepIgnore []
            \<and> set [] = (group_edges (tasks_dict taskList))\<^sup>* `` set []
            \<and> take 1 [] = take 1 ([] :: string list)
            \<and> (\<forall>pre G suf g. [] = pre @ G # suf \<longrightarrow> tasks_dict taskList G = Some g \<longrightarrow>
                   actions g = [] \<longrightarrow> set (task_dep g) \<subseteq> set suf)"
    by simp
  then show ?case by (intro exI[of _ s] exI[of _ "[]"])
next
  case (Cons n rest)
  let ?T = "tasks_dict taskList"
  have nR: "set [n] \<subseteq> reachable_names ?T names"
    using Cons.prems reachable_names_base[of names ?T] by auto
  then have kn: "?T n \<noteq> None" using known by auto
  from ignore_group_total[OF ac known nR, of s] obtain s1 ns1 where
    g: "ignore_group ?T [n] s = Some (None, s1)" "calls s1 = calls s @ map DepIgnore ns1"
    "set ns1 = (group_edges ?T)\<^sup>* `` set [n]" "take 1 ns1 = take 1 [n]"
    "\<forall>pre G suf g. ns1 = pre @ G # suf \<longrightarrow> ?T G = Some g \<longrightarrow>
                   actions g = [] \<longrightarrow> set (task_dep g) \<subseteq> set suf"
    by (elim exE conjE) (rule that)
  have "set rest \<subseteq> set names" using Cons.prems by simp
  from Cons.IH[OF this, of s1] obtain s' ns2 where
    r: "ignore_names ?T rest s1 = Some (None, s')" "calls s' = calls s1 @ map DepIgnore ns2"
    "set ns2 = (group_edges ?T)\<^sup>* `` set rest"
    "\<forall>pre G suf g. ns2 = pre @ G # suf \<longrightarrow> ?T G = Some g \<longrightarrow>
                   actions g = [] \<longrightarrow> set (task_dep g) \<subseteq> set suf"
    by (elim exE conjE) (rule that)
  have a: "ignore_names ?T (n # rest) s = Some (None, s')" using kn g(1) r(1) by simp
  have b: "calls s' = calls s @ map DepIgnore (ns1 @ ns2)" using g(2) r(2) by simp
  have c: "set (ns1 @ ns2) = (group_edges ?T)\<^sup>* `` set (n # rest)"
    using g(3) r(3) by auto
  have d: "take 1 (ns1 @ ns2) = take 1 (n # rest)"
    using g(4) by (cases ns1) simp_all
  note e = members_after_append[OF g(5) r(4)]
  show ?case using a b c d e by (intro exI[of _ s'] exI[of _ "ns1 @ ns2"] conjI)
qed

lemma forget_group_records:
  assumes "forget_group tasks grp s = Some y"
  shows "\<exists>ns. calls (snd y) = calls s @ map DepRemove ns
            \<and> records (snd y) = (\<lambda>n. if n \<in> set ns then None else records s n)"
  using assms
proof (induction tasks grp s y rule: forget_group.raw_induct[rotated, consumes 1])
  case (1 fg tasks grp s y)
  have base: "\<exists>ns. calls s = calls s @ map DepRemove ns
            \<and> records s = (\<lambda>n. if n \<in> set ns then None else records s n)"
    by (intro exI[of _ "[]"]) simp
  show ?case
  proof (cases grp)
    case Nil
    with 1(2) have "snd y = s" by auto
    with base show ?thesis by simp
  next
    case (Cons x rest)
    show ?thesis
    proof (cases "tasks x")
      case None
      with 1(2) Cons have "snd y = s" by auto
      with base show ?thesis by simp
    next
      case (Some t)
      let ?g = "if actions t = [] then rest @ task_dep t else rest"
      let ?s1 = "outstream_write (''forgeting '' @ x @ ''\<newline>'') (Dependency_remove x s)"
      from 1(2) Cons Some have "fg tasks ?g ?s1 = Some y" by simp
      from 1(1)[OF this] obtain ns where
        ns: "calls (snd y) = calls ?s1 @ map DepRemove ns"
        "records (snd y) = (\<lambda>n. if n \<in> set ns then None else records ?s1 n)"
        by (elim exE conjE) (rule that)
      have "calls (snd y) = calls s @ map DepRemove (x # ns)" using ns(1) by simp
      moreover have "records (snd y) = (\<lambda>n. if n \<in> set (x # ns) then None else records s n)"
        unfolding ns(2) by (rule ext) simp
      ultimately show ?thesis by (intro exI[of _ "x # ns"] conjI)
    qed
  qed
qed

lemma forget_names_records:
  "forget_names tasks names s = Some y \<Longrightarrow>
   \<exists>ns. calls (snd y) = calls s @ map DepRemove ns
      \<and> records (snd y) = (\<lambda>n. if n \<in> set ns then None else records s n)"
proof (induction names arbitrary: s)
  case Nil
  then have "snd y = s" by auto
  then show ?case by (intro exI[of _ "[]"]) simp
next
  case (Cons n names)
  show ?case
  proof (cases "tasks n = None")
    case True
    with Cons.prems have "snd y = s" by auto
    then show ?thesis by (intro exI[of _ "[]"]) simp
  next
    case False
    with Cons.prems obtain r s1 where g: "forget_group tasks [n] s = Some (r, s1)"
      by (auto split: option.splits)
    from forget_group_records[OF g] obtain ns1 where
      ns1: "calls s1 = calls s @ map DepRemove ns1"
      "records s1 = (\<lambda>n. if n \<in> set ns1 then None else records s n)" by auto
    show ?thesis
    proof (cases r)
      case None
      with Cons.prems False g have "forget_names tasks names s1 = Some y" by simp
      from Cons.IH[OF this] obtain ns2 where
        ns2: "calls (snd y) = calls s1 @ map DepRemove ns2"
        "records (snd y) = (\<lambda>n. if n \<in> set ns2 then None else records s1 n)"
        by (elim exE conjE) (rule that)
      have "calls (snd y) = calls s @ map DepRemove (ns1 @ ns2)" using ns1(1) ns2(1) by simp
      moreover have "records (snd y) =
          (\<lambda>n. if n \<in> set (ns1 @ ns2) then None else records s n)"
        unfolding ns2(2) ns1(2) by (rule ext) simp
      ultimately show ?thesis by (intro exI[of _ "ns1 @ ns2"] conjI)
    next
      case (Some e)
      with Cons.prems False g have "snd y = s1" by auto
      then show ?thesis using ns1 by (intro exI[of _ ns1]) simp
    qed
  qed
qed

lemma ignore_group_records:
  assumes "ignore_group tasks grp s = Some y"
  shows "(\<forall>x t. tasks x = Some t \<longrightarrow> name t = x) \<longrightarrow>
         (\<exists>ns. calls (snd y) = calls s @ map DepIgnore ns
            \<and> (\<forall>n\<in>set ns. \<exists>r. records (snd y) n = Some r \<and> ignored r)
            \<and> (\<forall>n. n \<notin> set ns \<longrightarrow> records (snd y) n = records s n))"
  using assms
proof (induction tasks grp s y rule: ignore_group.raw_induct[rotated, consumes 1])
  case (1 fg tasks grp s y)
  have base: "\<exists>ns. calls s = calls s @ map DepIgnore ns
            \<and> (\<forall>n\<in>set ns. \<exists>r. records s n = Some r \<and> ignored r)
            \<and> (\<forall>n. n \<notin> set ns \<longrightarrow> records s n = records s n)"
    by (intro exI[of _ "[]"]) simp
  show ?case
  proof (intro impI)
    assume nm: "\<forall>x t. tasks x = Some t \<longrightarrow> name t = x"
    show "\<exists>ns. calls (snd y) = calls s @ map DepIgnore ns
            \<and> (\<forall>n\<in>set ns. \<exists>r. records (snd y) n = Some r \<and> ignored r)
            \<and> (\<forall>n. n \<notin> set ns \<longrightarrow> records (snd y) n = records s n)"
    proof (cases grp)
      case Nil
      with 1(2) have "snd y = s" by auto
      with base show ?thesis by simp
    next
      case (Cons x rest)
      show ?thesis
      proof (cases "tasks x")
        case None
        with 1(2) Cons have "snd y = s" by auto
        with base show ?thesis by simp
      next
        case (Some t)
        let ?g = "if actions t = [] then rest @ task_dep t else rest"
        let ?s1 = "outstream_write (''ignoring '' @ x @ ''\<newline>'') (Dependency_ignore t s)"
        have nt: "name t = x" using nm Some by blast
        from 1(2) Cons Some have "fg tasks ?g ?s1 = Some y" by simp
        from 1(1)[OF this] nm obtain ns where
          ns: "calls (snd y) = calls ?s1 @ map DepIgnore ns"
          "\<forall>n\<in>set ns. \<exists>r. records (snd y) n = Some r \<and> ignored r"
          "\<forall>n. n \<notin> set ns \<longrightarrow> records (snd y) n = records ?s1 n"
          by blast
        have rx: "\<exists>r. records ?s1 x = Some r \<and> ignored r"
          using nt by (simp split: option.splits)
        have ro: "records ?s1 n = records s n" if "n \<noteq> x" for n
          using nt that by simp
        have a: "calls (snd y) = calls s @ map DepIgnore (x # ns)" using ns(1) nt by simp
        have b: "\<forall>n\<in>set (x # ns). \<exists>r. records (snd y) n = Some r \<and> ignored r"
        proof
          fix n assume "n \<in> set (x # ns)"
          show "\<exists>r. records (snd y) n = Some r \<and> ignored r"
          proof (cases "n \<in> set ns")
            case True
            with ns(2) show ?thesis by blast
          next
            case False
            with \<open>n \<in> set (x # ns)\<close> have "n = x" by simp
            with False ns(3) rx show ?thesis by simp
          qed
        qed
        have c: "\<forall>n. n \<notin> set (x # ns) \<longrightarrow> records (snd y) n = records s n"
          using ns(3) ro by simp
        show ?thesis using a b c by (intro exI[of _ "x # ns"] conjI)
      qed
    qed
  qed
qed

lemma ignore_names_records:
  assumes nm: "\<forall>x t. tasks x = Some t \<longrightarrow> name t = x"
  shows "ignore_names tasks names s = Some y \<Longrightarrow>
   \<exists>ns. calls (snd y) = calls s @ map DepIgnore ns
      \<and> (\<forall>n\<in>set ns. \<exists>r. records (snd y) n = Some r \<and> ignored r)
      \<and> (\<forall>n. n \<notin> set ns \<longrightarrow> records (snd y) n = records s n)"
proof (induction names arbitrary: s)
  case Nil
  then have "snd y = s" by auto
  then show ?case by (intro exI[of _ "[]"]) simp
next
  case (Cons n names)
  show ?case
  proof (cases "tasks n = None")
    case True
    with Cons.prems have "snd y = s" by auto
    then show ?thesis by (intro exI[of _ "[]"]) simp
  next
    case False
    with Cons.prems obtain r s1 where g: "ignore_group tasks [n] s = Some (r, s1)"
      by (auto split: option.splits)
    from ignore_group_records[OF g, rule_format, OF nm[rule_format]] obtain ns1 where
      ns1: "calls s1 = calls s @ map DepIgnore ns1"
      "\<forall>n\<in>set ns1. \<exists>r. records s1 n = Some r \<and> ignored r"
      "\<forall>n. n \<notin> set ns1 \<longrightarrow> records s1 n = records s n" by auto
    show ?thesis
    proof (cases r)
      case None
      with Cons.prems False g have "ignore_names tasks names s1 = Some y" by simp
      from Cons.IH[OF this] obtain ns2 where
        ns2: "calls (snd y) = calls s1 @ map DepIgnore ns2"
        "\<forall>n\<in>set ns2. \<exists>r. records (snd y) n = Some r \<and> ignored r"
        "\<forall>n. n \<notin> set ns2 \<longrightarrow> records (snd y) n = records s1 n"
        by (elim exE conjE) (rule that)
      have a: "calls (snd y) = calls s @ map DepIgnore (ns1 @ ns2)"
        using ns1(1) ns2(1) by simp
      have b: "\<forall>n\<in>set (ns1 @ ns2). \<exists>r. records (snd y) n = Some r \<and> ignored r"
      proof
        fix n assume "n \<in> set (ns1 @ ns2)"
        show "\<exists>r. records (snd y) n = Some r \<and> ignored r"
        proof (cases "n \<in> set ns2")
          case True
          with ns2(2) show ?thesis by blast
        next
          case False
          with \<open>n \<in> set (ns1 @ ns2)\<close> have "n \<in> set ns1" by simp
          with False ns2(3) ns1(2) show ?thesis by simp
        qed
      qed
      have c: "\<forall>n. n \<notin> set (ns1 @ ns2) \<longrightarrow> records (snd y) n = records s n"
        using ns1(3) ns2(3) by simp
      show ?thesis using a b c by (intro exI[of _ "ns1 @ ns2"] conjI)
    next
      case (Some e)
      with Cons.prems False g have "snd y = s1" by auto
      then show ?thesis using ns1 by (intro exI[of _ ns1]) simp
    qed
  qed
qed

lemma map_DepRemove_eq: "xs @ map DepRemove ns = xs @ map DepRemove ns' \<Longrightarrow> ns = ns'"
  by (simp add: inj_on_def)

lemma map_DepIgnore_eq: "xs @ map DepIgnore ns = xs @ map DepIgnore ns' \<Longrightarrow> ns = ns'"
  by (simp add: inj_on_def)

lemma example_graph_reachable:
  "reachable_names
     (tasks_dict [leaf_task ''x'', leaf_task ''y'', group_task ''g'' [''x'', ''y'']]) [''g'']
   = {''g'', ''x'', ''y''}"
proof -
  let ?T = "tasks_dict [leaf_task ''x'', leaf_task ''y'', group_task ''g'' [''x'', ''y'']]"
  have e: "(a, b) \<in> group_edges ?T \<longleftrightarrow> a = ''g'' \<and> (b = ''x'' \<or> b = ''y'')" for a b
    by (auto simp: group_edges_def tasks_dict_def leaf_task_def group_task_def split: if_splits)
  have "b \<in> {''g'', ''x'', ''y''}" if "(''g'', b) \<in> (group_edges ?T)\<^sup>*" for b
    using that by (induction rule: rtrancl_induct) (auto simp: e)
  moreover have "(''g'', ''x'') \<in> (group_edges ?T)\<^sup>*" "(''g'', ''y'') \<in> (group_edges ?T)\<^sup>*"
    using e by blast+
  ultimately show ?thesis unfolding reachable_names_def by auto
qed

lemma example_graph_known:
  "reachable_names
     (tasks_dict [leaf_task ''x'', leaf_task ''y'', group_task ''g'' [''x'', ''y'']]) [''g'']
   \<subseteq> dom (tasks_dict [leaf_task ''x'', leaf_task ''y'', group_task ''g'' [''x'', ''y'']])"
  unfolding example_graph_reachable
  by (simp add: tasks_dict_def leaf_task_def group_task_def)

subsection \<open>The lines written by doit_list\<close>

lemma out_simps [simp]:
  "out (outstream_write x s) = out s @ [x]"
  "out (Dependency db s) = out s"
  by (simp_all add: outstream_write_def Dependency_def)

lemma tasks_dict_mem: "tasks_dict taskList n = Some t \<Longrightarrow> t \<in> set taskList"
  unfolding tasks_dict_def by (auto dest!: map_of_SomeD)

lemma lookup_tasks_mem:
  "lookup_tasks tasks ns = Inr ts \<Longrightarrow> t \<in> set ts \<Longrightarrow> \<exists>n. tasks n = Some t"
  by (induction ns arbitrary: ts) (auto split: option.splits sum.splits)

lemma list_print_lines:
  fixes task_list :: "task list"
  shows "\<forall>n t. tasks n = Some t \<longrightarrow> t \<in> set task_list \<Longrightarrow> pst \<Longrightarrow> t \<in> set task_list \<Longrightarrow>
         list_print_task d gs tasks ps pd pst t s = (r, s') \<Longrightarrow>
         \<exists>ls. out s' = out s @ ls \<and>
              (\<forall>l\<in>set ls. \<exists>t\<in>set task_list. status_line gs pd t = Some l)"
    and "\<forall>n t. tasks n = Some t \<longrightarrow> t \<in> set task_list \<Longrightarrow> pst \<Longrightarrow>
         list_print_subtasks d gs tasks ps pd pst t subs s = (r, s') \<Longrightarrow>
         \<exists>ls. out s' = out s @ ls \<and>
              (\<forall>l\<in>set ls. \<exists>t\<in>set task_list. status_line gs pd t = Some l)"
proof (induction d gs tasks ps pd pst t s and d gs tasks ps pd pst t subs s
    arbitrary: r s' and r s' rule: list_print_task_list_print_subtasks.induct)
  case (1 gs tasks ps pd pst t s)
  then have "out s' = out s @ []" by simp
  then show ?case by (intro exI[of _ "[]"]) simp
next
  case (2 d gs tasks ps pd pst t s)
  show ?case
  proof (cases "status_line gs pd t")
    case None
    with "2.prems" have "s' = s"
      by (auto simp: status_line_def split: sum.splits option.splits)
    then have "out s' = out s @ []" by simp
    then show ?thesis by (intro exI[of _ "[]"]) simp
  next
    case (Some line)
    then obtain st c where g: "gs t = Inr st" "status_map st = Some c"
      "line = c @ '' '' @ task_str pd t @ ''\<newline>''"
      by (auto simp: status_line_def split: sum.splits option.splits)
    let ?s1 = "outstream_write line s"
    show ?thesis
    proof (cases ps)
      case False
      with "2.prems" g have "s' = ?s1" by simp
      then have "out s' = out s @ [line]" by simp
      then show ?thesis using Some "2.prems"(3) by (intro exI[of _ "[line]"]) auto
    next
      case True
      with "2.prems" g have
        sub: "list_print_subtasks d gs tasks ps pd pst t (task_dep t) ?s1 = (r, s')"
        by simp
      have "\<exists>ls. out s' = out ?s1 @ ls \<and>
              (\<forall>l\<in>set ls. \<exists>t\<in>set task_list. status_line gs pd t = Some l)"
        using "2.IH"[of "c @ '' '' @ task_str pd t", OF _ True "2.prems"(1) "2.prems"(2)] sub g
          "2.prems"(2)
        by simp
      then obtain ls where ls: "out s' = out ?s1 @ ls"
        "\<forall>l\<in>set ls. \<exists>t\<in>set task_list. status_line gs pd t = Some l"
        by (elim exE conjE) (rule that)
      have "out s' = out s @ (line # ls)" using ls(1) by simp
      moreover have "\<forall>l\<in>set (line # ls). \<exists>t\<in>set task_list. status_line gs pd t = Some l"
        using ls(2) Some "2.prems"(3) by auto
      ultimately show ?thesis by (intro exI[of _ "line # ls"] conjI)
    qed
  qed
next
  case (3 d gs tasks ps pd pst t s)
  then have "out s' = out s @ []" by simp
  then show ?case by (intro exI[of _ "[]"]) simp
next
  case (4 d gs tasks ps pd pst t subt rest s)
  show ?case
  proof (cases "startswith subt (name t)")
    case False
    with "4.prems" have "list_print_subtasks d gs tasks ps pd pst t rest s = (r, s')" by simp
    from "4.IH"(3)[OF False "4.prems"(1) "4.prems"(2) this] show ?thesis .
  next
    case True
    show ?thesis
    proof (cases "tasks subt")
      case None
      with True "4.prems" have "out s' = out s @ []" by simp
      then show ?thesis by (intro exI[of _ "[]"]) simp
    next
      case (Some t')
      obtain r1 s1 where p: "list_print_task d gs tasks ps pd pst t' s = (r1, s1)"
        by (cases "list_print_task d gs tasks ps pd pst t' s")
      have t': "t' \<in> set task_list" using "4.prems"(1) Some by blast
      from "4.IH"(1)[OF True Some "4.prems"(1) "4.prems"(2) t' p] obtain ls1 where
        ls1: "out s1 = out s @ ls1"
        "\<forall>l\<in>set ls1. \<exists>t\<in>set task_list. status_line gs pd t = Some l"
        by (elim exE conjE) (rule that)
      show ?thesis
      proof (cases r1)
        case (Some e)
        with True \<open>tasks subt = Some t'\<close> p "4.prems" have "s' = s1" by simp
        then show ?thesis using ls1 by (intro exI[of _ ls1]) simp
      next
        case None
        with True \<open>tasks subt = Some t'\<close> p "4.prems"
        have q: "list_print_subtasks d gs tasks ps pd pst t rest s1 = (r, s')" by simp
        have p': "(None, s1) = list_print_task d gs tasks ps pd pst t' s"
          using p None by simp
        from "4.IH"(2)[OF True \<open>tasks subt = Some t'\<close> p' refl "4.prems"(1) "4.prems"(2) q]
        obtain ls2 where ls2: "out s' = out s1 @ ls2"
          "\<forall>l\<in>set ls2. \<exists>t\<in>set task_list. status_line gs pd t = Some l"
          by (elim exE conjE) (rule that)
        have "out s' = out s @ (ls1 @ ls2)" using ls1(1) ls2(1) by simp
        moreover have "\<forall>l\<in>set (ls1 @ ls2). \<exists>t\<in>set task_list. status_line gs pd t = Some l"
          using ls1(2) ls2(2) by auto
        ultimately show ?thesis by (intro exI[of _ "ls1 @ ls2"] conjI)
      qed
    qed
  qed
qed

lemma doit_list_loop_lines:
  "\<forall>n t. tasks n = Some t \<longrightarrow> t \<in> set task_list \<Longrightarrow> set ts \<subseteq> set task_list \<Longrightarrow>
   doit_list_loop d gs tasks ft ps pd True pp ts s = (r, s') \<Longrightarrow>
   \<exists>ls. out s' = out s @ ls \<and>
        (\<forall>l\<in>set ls. \<exists>t\<in>set task_list. status_line gs pd t = Some l)"
proof (induction ts arbitrary: s)
  case Nil
  then have "out s' = out s @ []" by simp
  then show ?case by (intro exI[of _ "[]"]) simp
next
  case (Cons t ts)
  have sub: "set ts \<subseteq> set task_list" and t: "t \<in> set task_list" using Cons.prems(2) by auto
  show ?case
  proof (cases "(ft = [] \<and> is_subtask t) \<or> (\<not> pp \<and> startswith (name t) ''_'')")
    case True
    with Cons.prems(3) have "doit_list_loop d gs tasks ft ps pd True pp ts s = (r, s')"
      by (auto split: if_splits)
    from Cons.IH[OF Cons.prems(1) sub this] show ?thesis .
  next
    case False
    obtain r1 s1 where p: "list_print_task d gs tasks ps pd True t s = (r1, s1)"
      by (cases "list_print_task d gs tasks ps pd True t s")
    from list_print_lines(1)[OF Cons.prems(1) TrueI t p] obtain ls1 where
      ls1: "out s1 = out s @ ls1"
      "\<forall>l\<in>set ls1. \<exists>t\<in>set task_list. status_line gs pd t = Some l"
      by (elim exE conjE) (rule that)
    show ?thesis
    proof (cases r1)
      case (Some e)
      with False p Cons.prems(3) have "s' = s1" by (auto split: if_splits)
      then show ?thesis using ls1 by (intro exI[of _ ls1]) simp
    next
      case None
      with False p Cons.prems(3)
      have "doit_list_loop d gs tasks ft ps pd True pp ts s1 = (r, s')"
        by (auto split: if_splits)
      from Cons.IH[OF Cons.prems(1) sub this] obtain ls2 where
        ls2: "out s' = out s1 @ ls2"
        "\<forall>l\<in>set ls2. \<exists>t\<in>set task_list. status_line gs pd t = Some l"
        by (elim exE conjE) (rule that)
      have "out s' = out s @ (ls1 @ ls2)" using ls1(1) ls2(1) by simp
      moreover have "\<forall>l\<in>set (ls1 @ ls2). \<exists>t\<in>set task_list. status_line gs pd t = Some l"
        using ls1(2) ls2(2) by auto
      ultimately show ?thesis by (intro exI[of _ "ls1 @ ls2"] conjI)
    qed
  qed
qed

lemma doit_list_lines:
  assumes "doit_list d gs dependencyFile task_list ft ps pd True pp s = (r, s')"
  shows "\<exists>ls. out s' = out s @ ls \<and>
        (\<forall>l\<in>set ls. \<exists>t\<in>set task_list. status_line gs pd t = Some l)"
proof -
  let ?T = "tasks_dict task_list"
  have ran: "\<forall>n t. ?T n = Some t \<longrightarrow> t \<in> set task_list"
    using tasks_dict_mem by blast
  show ?thesis
  proof (cases "if ft \<noteq> [] then lookup_tasks ?T ft else Inr task_list")
    case (Inl e)
    with assms have "out s' = out s @ []" by (simp add: doit_list_def)
    then show ?thesis by (intro exI[of _ "[]"]) simp
  next
    case (Inr ts)
    have sub: "set ts \<subseteq> set task_list"
    proof (cases "ft = []")
      case True
      with Inr show ?thesis by simp
    next
      case False
      with Inr have "lookup_tasks ?T ft = Inr ts" by simp
      then show ?thesis using lookup_tasks_mem ran by blast
    qed
    obtain r1 s1 where l: "doit_list_loop d gs ?T ft ps pd True pp ts
         (Dependency dependencyFile s) = (r1, s1)"
      by (cases "doit_list_loop d gs ?T ft ps pd True pp ts (Dependency dependencyFile s)")
    from assms Inr l have "s' = s1"
      by (auto simp: doit_list_def split: option.splits)
    with doit_list_loop_lines[OF ran sub l] show ?thesis by simp
  qed
qed

lemma status_map_iff:
  "status_map st = Some c \<longleftrightarrow>
     (st = ''ignore'' \<and> c = ''I'') \<or> (st = ''up-to-date'' \<and> c = ''U'')
     \<or> (st = ''run'' \<and> c = ''R'')"
  by (auto simp: status_map_def)

lemma status_no_record:
  "recs (name t) = None \<Longrightarrow> Dependency_get_status (Suc k) tasks fs recs t = Some ''run''"
  by simp

lemma status_ignored:
  "Dependency_get_status (Suc k) tasks fs (records (Dependency_ignore t s)) t = Some ''ignore''"
  by (simp add: Dependency_ignore_def split: option.splits)

lemma status_committed:
  assumes ni: "case recs (name t) of None \<Rightarrow> True | Some r \<Rightarrow> \<not> ignored r"
    and ex: "\<forall>f\<in>set (file_dep t). fs f \<noteq> None"
    and deps: "\<forall>n\<in>set (task_dep t). \<exists>t'. tasks n = Some t' \<and>
        Dependency_get_status k tasks fs
          (Dependency_commit t (fs |` set (file_dep t)) recs) t' = Some ''up-to-date''"
  shows "Dependency_get_status (Suc k) tasks fs
           (Dependency_commit t (fs |` set (file_dep t)) recs) t = Some ''up-to-date''"
proof -
  let ?recs = "Dependency_commit t (fs |` set (file_dep t)) recs"
  obtain r where r: "?recs (name t) = Some r" "\<not> ignored r"
    "fingerprints r = fs |` set (file_dep t)"
    using ni by (auto simp: Dependency_commit_def split: option.splits)
  have f: "\<not> list_ex (\<lambda>f. fs f = None \<or> fingerprints r f \<noteq> fs f) (file_dep t)"
    using ex r(3) by (auto simp: list_ex_iff)
  let ?ds = "map (\<lambda>n. case tasks n of None \<Rightarrow> None
                    | Some t' \<Rightarrow> Dependency_get_status k tasks fs ?recs t') (task_dep t)"
  have d: "\<forall>d\<in>set ?ds. d = Some ''up-to-date''"
    using deps by auto
  then have "\<not> list_ex (\<lambda>d. d = None) ?ds" "\<not> list_ex (\<lambda>d. d \<noteq> Some ''up-to-date'') ?ds"
    unfolding list_ex_iff by auto
  then show ?thesis using r(1,2) f by (simp add: Let_def)
qed

lemma list_print_subtasks_filter:
  "list_print_subtasks d gs tasks ps pd pst t subs s =
   list_print_subtasks d gs tasks ps pd pst t
     (filter (\<lambda>subt. startswith subt (name t)) subs) s"
proof (induction subs arbitrary: s)
  case Nil
  show ?case by simp
next
  case (Cons subt rest)
  show ?case
  proof (cases "startswith subt (name t)")
    case False
    then show ?thesis using Cons[of s] by simp
  next
    case True
    then show ?thesis using Cons by (simp split: option.splits prod.splits)
  qed
qed

lemma list_print_flag_independent:
  "\<forall>t b. gs (t\<lparr>is_subtask := b\<rparr>) = gs t \<Longrightarrow>
   list_print_task d gs (\<lambda>n. map_option (\<lambda>t. t\<lparr>is_subtask := fl t\<rparr>) (tasks n)) ps pd pst
     (t\<lparr>is_subtask := b\<rparr>) s
   = list_print_task d gs tasks ps pd pst t s"
  "\<forall>t b. gs (t\<lparr>is_subtask := b\<rparr>) = gs t \<Longrightarrow>
   list_print_subtasks d gs (\<lambda>n. map_option (\<lambda>t. t\<lparr>is_subtask := fl t\<rparr>) (tasks n)) ps pd pst
     (t\<lparr>is_subtask := b\<rparr>) subs s
   = list_print_subtasks d gs tasks ps pd pst t subs s"
proof (induction d gs tasks ps pd pst t s and d gs tasks ps pd pst t subs s
    arbitrary: b and b rule: list_print_task_list_print_subtasks.induct)
  case (1 gs tasks ps pd pst t s)
  show ?case by simp
next
  case (2 d gs tasks ps pd pst t s)
  have ts: "task_str pd (t\<lparr>is_subtask := b\<rparr>) = task_str pd t"
    by (simp add: task_str_def split: option.splits)
  have g: "gs (t\<lparr>is_subtask := b\<rparr>) = gs t" using "2.prems" by simp
  have td: "task_dep (t\<lparr>is_subtask := b\<rparr>) = task_dep t" by simp
  show ?case
  proof (cases "if pst
            then (case gs t of
                    Inl e \<Rightarrow> Inl e
                  | Inr task_uptodate \<Rightarrow>
                      (case status_map task_uptodate of
                         None \<Rightarrow> Inl (KeyError task_uptodate)
                       | Some c \<Rightarrow> Inr (c @ '' '' @ task_str pd t)))
            else Inr (task_str pd t)")
    case (Inl e)
    show ?thesis unfolding list_print_task.simps ts g td Inl by simp
  next
    case (Inr line)
    show ?thesis
    proof (cases ps)
      case False
      show ?thesis unfolding list_print_task.simps ts g td Inr using False by simp
    next
      case True
      from "2.IH"[OF Inr True "2.prems", of b] show ?thesis
        unfolding list_print_task.simps ts g td Inr using True by simp
    qed
  qed
next
  case (3 d gs tasks ps pd pst t s)
  show ?case by simp
next
  case (4 d gs tasks ps pd pst t subt rest s)
  show ?case
  proof (cases "startswith subt (name t)")
    case False
    with "4.IH"(3)[OF False "4.prems", of b] show ?thesis by simp
  next
    case True
    show ?thesis
    proof (cases "tasks subt")
      case None
      with True show ?thesis by simp
    next
      case (Some t')
      have p: "list_print_task d gs (\<lambda>n. map_option (\<lambda>t. t\<lparr>is_subtask := fl t\<rparr>) (tasks n))
                 ps pd pst (t'\<lparr>is_subtask := fl t'\<rparr>) s
               = list_print_task d gs tasks ps pd pst t' s"
        by (rule "4.IH"(1)[OF True Some "4.prems"])
      show ?thesis
      proof (cases "list_print_task d gs tasks ps pd pst t' s")
        case (Pair r1 s1)
        show ?thesis
        proof (cases r1)
          case (Some e)
          with True \<open>tasks subt = Some t'\<close> p Pair show ?thesis by simp
        next
          case None
          from "4.IH"(2)[OF True \<open>tasks subt = Some t'\<close> _ refl "4.prems", of s1 b] Pair None
          have "list_print_subtasks d gs
                  (\<lambda>n. map_option (\<lambda>t. t\<lparr>is_subtask := fl t\<rparr>) (tasks n)) ps pd pst
                  (t\<lparr>is_subtask := b\<rparr>) rest s1
                = list_print_subtasks d gs tasks ps pd pst t rest s1"
            by simp
          with True \<open>tasks subt = Some t'\<close> p Pair None show ?thesis by simp
        qed
      qed
    qed
  qed
qed

subsection \<open>The effects of doit_auto\<close>

lemma doit_run_watches: "watches (snd (doit_run env db tsk outp opts v a c rep s)) = watches s"
  by (simp add: doit_run_def Let_def split: sum.splits option.splits output_arg.splits)

lemma handle_event_watches:
  "DoitAutoRun_handle_event env db tsk ft ev s = (r, s') \<Longrightarrow> watches s' = watches s"
  using doit_run_watches[of env db tsk OutStream ft None False False "''executed-only''" s]
  by (auto simp: DoitAutoRun_handle_event_def split: prod.splits sum.splits)

lemma notifier_loop_watches:
  "notifier_loop w (DoitAutoRun_handle_event env db tsk ft) evs s = (r, s') \<Longrightarrow>
   watches s' = watches s"
proof (induction evs arbitrary: s)
  case Nil
  then show ?case by simp
next
  case (Cons ev evs)
  show ?case
  proof (cases "pathname ev \<in> set (file_list w)")
    case False
    with Cons show ?thesis by (simp add: FileModifyWatcher_handle_def)
  next
    case True
    obtain r1 s1 where h: "DoitAutoRun_handle_event env db tsk ft ev s = (r1, s1)"
      by (cases "DoitAutoRun_handle_event env db tsk ft ev s")
    have w1: "watches s1 = watches s" by (rule handle_event_watches[OF h])
    show ?thesis
    proof (cases r1)
      case None
      with Cons.prems True h
      have "notifier_loop w (DoitAutoRun_handle_event env db tsk ft) evs s1 = (r, s')"
        by (simp add: FileModifyWatcher_handle_def)
      from Cons.IH[OF this] w1 show ?thesis by simp
    next
      case (Some e)
      with Cons.prems True h have "s' = s1" by (simp add: FileModifyWatcher_handle_def)
      with w1 show ?thesis by simp
    qed
  qed
qed

lemma handle_event_runs:
  assumes "TaskSetup_process tsk ft = Inr selected"
    and "REPORTERS env ''executed-only'' = Some cls"
    and "run_tasks env (RunTasks db selected
           (Reporter cls OutStream (DEFAULT_VERBOSITY env < 2) True) None False False) = Inr rc"
  shows "DoitAutoRun_handle_event env db tsk ft ev s =
           (None, s\<lparr>runner_calls := runner_calls s @
              [RunTasks db selected (Reporter cls OutStream (DEFAULT_VERBOSITY env < 2) True)
                 None False False]\<rparr>)"
  using assms by (simp add: DoitAutoRun_handle_event_def doit_run_def Let_def)

lemma notifier_loop_runs:
  assumes "TaskSetup_process tsk ft = Inr selected"
    and "REPORTERS env ''executed-only'' = Some cls"
    and "run_tasks env (RunTasks db selected
           (Reporter cls OutStream (DEFAULT_VERBOSITY env < 2) True) None False False) = Inr rc"
  shows "\<exists>s'. notifier_loop w (DoitAutoRun_handle_event env db tsk ft) evs s = (None, s')
          \<and> runner_calls s' = runner_calls s @
               replicate (length (filter (\<lambda>ev. pathname ev \<in> set (file_list w)) evs))
                 (RunTasks db selected (Reporter cls OutStream (DEFAULT_VERBOSITY env < 2) True)
                    None False False)"
proof (induction evs arbitrary: s)
  case Nil
  show ?case by simp
next
  case (Cons ev evs)
  let ?c = "RunTasks db selected (Reporter cls OutStream (DEFAULT_VERBOSITY env < 2) True)
              None False False"
  show ?case
  proof (cases "pathname ev \<in> set (file_list w)")
    case False
    then show ?thesis using Cons[of s] by (simp add: FileModifyWatcher_handle_def)
  next
    case True
    let ?s1 = "s\<lparr>runner_calls := runner_calls s @ [?c]\<rparr>"
    from Cons[of ?s1] obtain s' where
      s': "notifier_loop w (DoitAutoRun_handle_event env db tsk ft) evs ?s1 = (None, s')"
      "runner_calls s' = runner_calls ?s1 @
         replicate (length (filter (\<lambda>ev. pathname ev \<in> set (file_list w)) evs)) ?c"
      by (elim exE conjE) (rule that)
    have "notifier_loop w (DoitAutoRun_handle_event env db tsk ft) (ev # evs) s = (None, s')"
      using True s'(1) handle_event_runs[OF assms, of ev s]
      by (simp add: FileModifyWatcher_handle_def)
    moreover have "runner_calls s' = runner_calls s @
         replicate (length (filter (\<lambda>ev. pathname ev \<in> set (file_list w)) (ev # evs))) ?c"
      using True s'(2) by (simp add: replicate_append_same)
    ultimately show ?thesis by (intro exI[of _ s'] conjI)
  qed
qed

subsection \<open>The claims\<close>

text \<open>
  C1, as stated, fails. The claim: when a name of the list names no task, the error is
  raised with no partial state change, wherever the offending name stands. The code checks
  a name only when the loop reaches it. Here the list is \<open>[a, zz]\<close> and \<open>zz\<close> names no task:
  \<^verbatim>\<open>doit_forget\<close> has removed the record of \<open>a\<close>, and \<^verbatim>\<open>doit_ignore\<close> has marked it
  ignored, when the error for \<open>zz\<close> is raised.
\<close>

theorem unknown_name_partial_change_counterexample:
  "records (store_of [''a'']) ''a'' = Some fresh_record
   \<and> (case doit_forget ''db'' [leaf_task ''a''] [''a'', ''zz''] (store_of [''a'']) of
        Some (Some e, s') \<Rightarrow>
          e = InvalidCommand (not_a_task ''zz'') \<and> records s' ''a'' = None
          \<and> calls s' = [DepOpen ''db'', DepRemove ''a'']
      | _ \<Rightarrow> False)
   \<and> (case doit_ignore ''db'' [leaf_task ''a''] [''a'', ''zz''] (store_of [''a'']) of
        Some (Some e, s') \<Rightarrow>
          e = InvalidCommand (not_a_task ''zz'')
          \<and> records s' ''a'' = Some (fresh_record\<lparr>ignored := True\<rparr>)
          \<and> calls s' = [DepOpen ''db'', DepIgnore ''a'']
      | _ \<Rightarrow> False)"
  by (simp add: eval_simps Dependency_ignore_def)


text \<open>
  C1, amended. Let \<open>bad\<close> name no task, let every name of \<open>pre\<close> and every name reachable
  from them through the \<open>task_dep\<close> of group tasks name a task, and let the group edges
  reachable from \<open>pre\<close> be acyclic. Then \<^verbatim>\<open>doit_forget\<close> and \<^verbatim>\<open>doit_ignore\<close> called with
  \<open>pre @ bad # post\<close> raise the command error that names \<open>bad\<close>, and by then the calls made
  on the dependency manager are its creation followed by \<^verbatim>\<open>remove\<close> (\<^verbatim>\<open>ignore\<close>) calls for
  exactly the names of \<open>pre\<close> and the members of their groups: the records of these names
  are removed (are marked ignored), every other record is unchanged, no call is made for
  \<open>bad\<close> or for a name of \<open>post\<close>, and \<^verbatim>\<open>close\<close> is not called. When the offending name is the
  first of the list (\<open>pre\<close> is empty), no \<^verbatim>\<open>remove\<close> or \<^verbatim>\<open>ignore\<close> call is made and no record is
  changed.
\<close>

theorem unknown_name_raised_after_prefix:
  assumes bad: "tasks_dict taskList bad = None"
    and known: "reachable_names (tasks_dict taskList) pre \<subseteq> dom (tasks_dict taskList)"
    and ac: "acyclic (reachable_edges (tasks_dict taskList) pre)"
  shows "(\<exists>s' ns. doit_forget dbFileName taskList (pre @ bad # post) s =
                    Some (Some (InvalidCommand (not_a_task bad)), s')
            \<and> calls s' = calls s @ DepOpen dbFileName # map DepRemove ns
            \<and> set ns = reachable_names (tasks_dict taskList) pre
            \<and> records s' = (\<lambda>n. if n \<in> set ns then None else records s n))
       \<and> (\<exists>s' ns. doit_ignore dbFileName taskList (pre @ bad # post) s =
                    Some (Some (InvalidCommand (not_a_task bad)), s')
            \<and> calls s' = calls s @ DepOpen dbFileName # map DepIgnore ns
            \<and> set ns = reachable_names (tasks_dict taskList) pre
            \<and> (\<forall>n\<in>set ns. \<exists>r. records s' n = Some r \<and> ignored r)
            \<and> (\<forall>n. n \<notin> set ns \<longrightarrow> records s' n = records s n))"
proof (intro conjI)
  let ?T = "tasks_dict taskList"
  let ?s0 = "Dependency dbFileName s"
  from forget_names_total[OF ac known subset_refl, of ?s0] obtain s' ns where
    f: "forget_names ?T pre ?s0 = Some (None, s')" "calls s' = calls ?s0 @ map DepRemove ns"
    "set ns = (group_edges ?T)\<^sup>* `` set pre"
    by (elim exE conjE) (rule that)
  from forget_names_records[OF f(1)] obtain ns' where
    r: "calls s' = calls ?s0 @ map DepRemove ns'"
    "records s' = (\<lambda>n. if n \<in> set ns' then None else records ?s0 n)"
    by auto
  have "ns' = ns" using f(2) r(1) map_DepRemove_eq by metis
  with r(2) have rec: "records s' = (\<lambda>n. if n \<in> set ns then None else records s n)"
    by (simp cong: if_cong)
  have "forget_names ?T (pre @ bad # post) ?s0 = Some (Some (InvalidCommand (not_a_task bad)), s')"
    unfolding forget_names_unknown[where tasks = ?T, OF bad] f(1) by simp
  then have d: "doit_forget dbFileName taskList (pre @ bad # post) s =
      Some (Some (InvalidCommand (not_a_task bad)), s')"
    by (simp add: doit_forget_def)
  have c: "calls s' = calls s @ DepOpen dbFileName # map DepRemove ns" using f(2) by simp
  have n: "set ns = reachable_names ?T pre" using f(3) by (simp add: reachable_names_def)
  show "\<exists>s' ns. doit_forget dbFileName taskList (pre @ bad # post) s =
                    Some (Some (InvalidCommand (not_a_task bad)), s')
            \<and> calls s' = calls s @ DepOpen dbFileName # map DepRemove ns
            \<and> set ns = reachable_names ?T pre
            \<and> records s' = (\<lambda>n. if n \<in> set ns then None else records s n)"
    using d c n rec by (intro exI[of _ s'] exI[of _ ns] conjI)
next
  let ?T = "tasks_dict taskList"
  let ?s0 = "Dependency dbFileName s"
  have nm: "\<forall>x t. ?T x = Some t \<longrightarrow> name t = x" using tasks_dict_name by blast
  from ignore_names_total[OF ac known subset_refl, of ?s0] obtain s' ns where
    f: "ignore_names ?T pre ?s0 = Some (None, s')" "calls s' = calls ?s0 @ map DepIgnore ns"
    "set ns = (group_edges ?T)\<^sup>* `` set pre"
    by (elim exE conjE) (rule that)
  from ignore_names_records[OF nm f(1)] obtain ns' where
    r: "calls s' = calls ?s0 @ map DepIgnore ns'"
    "\<forall>n\<in>set ns'. \<exists>r. records s' n = Some r \<and> ignored r"
    "\<forall>n. n \<notin> set ns' \<longrightarrow> records s' n = records ?s0 n"
    by auto
  have "ns' = ns" using f(2) r(1) map_DepIgnore_eq by metis
  with r(2,3) have rec: "\<forall>n\<in>set ns. \<exists>r. records s' n = Some r \<and> ignored r"
    "\<forall>n. n \<notin> set ns \<longrightarrow> records s' n = records s n" by simp_all
  have "ignore_names ?T (pre @ bad # post) ?s0 = Some (Some (InvalidCommand (not_a_task bad)), s')"
    unfolding ignore_names_unknown[where tasks = ?T, OF bad] f(1) by simp
  then have d: "doit_ignore dbFileName taskList (pre @ bad # post) s =
      Some (Some (InvalidCommand (not_a_task bad)), s')"
    by (simp add: doit_ignore_def)
  have c: "calls s' = calls s @ DepOpen dbFileName # map DepIgnore ns" using f(2) by simp
  have n: "set ns = reachable_names ?T pre" using f(3) by (simp add: reachable_names_def)
  show "\<exists>s' ns. doit_ignore dbFileName taskList (pre @ bad # post) s =
                    Some (Some (InvalidCommand (not_a_task bad)), s')
            \<and> calls s' = calls s @ DepOpen dbFileName # map DepIgnore ns
            \<and> set ns = reachable_names ?T pre
            \<and> (\<forall>n\<in>set ns. \<exists>r. records s' n = Some r \<and> ignored r)
            \<and> (\<forall>n. n \<notin> set ns \<longrightarrow> records s' n = records s n)"
    using d c n rec by (intro exI[of _ s'] exI[of _ ns] conjI)
qed

text \<open>
  An instance of C1 as amended: the group \<open>g\<close> with members \<open>x\<close> and \<open>y\<close> is named before
  \<open>zz\<close>, which names no task.
\<close>

theorem unknown_name_raised_after_prefix_witness:
  "tasks_dict [leaf_task ''x'', leaf_task ''y'', group_task ''g'' [''x'', ''y'']] ''zz'' = None
   \<and> (\<exists>s' ns. doit_forget ''db'' [leaf_task ''x'', leaf_task ''y'', group_task ''g'' [''x'', ''y'']]
                  ([''g''] @ ''zz'' # [''x'']) (store_of [''g'', ''x'', ''y'']) =
                    Some (Some (InvalidCommand (not_a_task ''zz'')), s')
            \<and> calls s' = [DepOpen ''db''] @ map DepRemove ns
            \<and> set ns = {''g'', ''x'', ''y''}
            \<and> records s' ''g'' = None \<and> records s' ''x'' = None \<and> records s' ''y'' = None)
   \<and> (\<exists>s' ns. doit_ignore ''db'' [leaf_task ''x'', leaf_task ''y'', group_task ''g'' [''x'', ''y'']]
                  ([''g''] @ ''zz'' # [''x'']) (store_of [''g'', ''x'', ''y'']) =
                    Some (Some (InvalidCommand (not_a_task ''zz'')), s')
            \<and> calls s' = [DepOpen ''db''] @ map DepIgnore ns
            \<and> set ns = {''g'', ''x'', ''y''}
            \<and> (\<exists>r. records s' ''y'' = Some r \<and> ignored r))"
proof -
  let ?tl = "[leaf_task ''x'', leaf_task ''y'', group_task ''g'' [''x'', ''y'']]"
  let ?s = "store_of [''g'', ''x'', ''y'']"
  have h: "tasks_dict ?tl ''zz'' = None"
    by (simp add: tasks_dict_def leaf_task_def group_task_def)
  note t = unknown_name_raised_after_prefix[OF h example_graph_known example_graph_acyclic,
      of "''db''" "[''x'']" ?s]
  from t[THEN conjunct1] obtain s1 ns1 where
    1: "doit_forget ''db'' ?tl ([''g''] @ ''zz'' # [''x'']) ?s =
          Some (Some (InvalidCommand (not_a_task ''zz'')), s1)"
    "calls s1 = calls ?s @ DepOpen ''db'' # map DepRemove ns1"
    "set ns1 = reachable_names (tasks_dict ?tl) [''g'']"
    "records s1 = (\<lambda>n. if n \<in> set ns1 then None else records ?s n)"
    by (elim exE conjE) (rule that)
  from t[THEN conjunct2] obtain s2 ns2 where
    2: "doit_ignore ''db'' ?tl ([''g''] @ ''zz'' # [''x'']) ?s =
          Some (Some (InvalidCommand (not_a_task ''zz'')), s2)"
    "calls s2 = calls ?s @ DepOpen ''db'' # map DepIgnore ns2"
    "set ns2 = reachable_names (tasks_dict ?tl) [''g'']"
    "\<forall>n\<in>set ns2. \<exists>r. records s2 n = Some r \<and> ignored r"
    by (elim exE conjE) (rule that)
  have n1: "set ns1 = {''g'', ''x'', ''y''}" using 1(3) example_graph_reachable by simp
  have n2: "set ns2 = {''g'', ''x'', ''y''}" using 2(3) example_graph_reachable by simp
  have c1: "calls s1 = [DepOpen ''db''] @ map DepRemove ns1"
    using 1(2) by (simp add: store_of_def)
  have c2: "calls s2 = [DepOpen ''db''] @ map DepIgnore ns2"
    using 2(2) by (simp add: store_of_def)
  have r1: "records s1 ''g'' = None" "records s1 ''x'' = None" "records s1 ''y'' = None"
    unfolding 1(4) n1 by simp_all
  have r2: "\<exists>r. records s2 ''y'' = Some r \<and> ignored r"
    using 2(4) n2 by simp
  have A: "\<exists>s' ns. doit_forget ''db'' ?tl ([''g''] @ ''zz'' # [''x'']) ?s =
                    Some (Some (InvalidCommand (not_a_task ''zz'')), s')
            \<and> calls s' = [DepOpen ''db''] @ map DepRemove ns
            \<and> set ns = {''g'', ''x'', ''y''}
            \<and> records s' ''g'' = None \<and> records s' ''x'' = None \<and> records s' ''y'' = None"
    using 1(1) c1 n1 r1 by (intro exI[of _ s1] exI[of _ ns1] conjI)
  have B: "\<exists>s' ns. doit_ignore ''db'' ?tl ([''g''] @ ''zz'' # [''x'']) ?s =
                    Some (Some (InvalidCommand (not_a_task ''zz'')), s')
            \<and> calls s' = [DepOpen ''db''] @ map DepIgnore ns
            \<and> set ns = {''g'', ''x'', ''y''}
            \<and> (\<exists>r. records s' ''y'' = Some r \<and> ignored r)"
    using 2(1) c2 n2 r2 by (intro exI[of _ s2] exI[of _ ns2] conjI)
  show ?thesis using h A B by (intro conjI)
qed

text \<open>
  C4. \<^verbatim>\<open>doit_ignore\<close> with an empty task list returns normally at once: the only effect is
  the refusal message written to the output stream. No record of the dependency store is
  created, removed or flagged, and no call at all is made on a dependency manager (none is
  even created).
\<close>

theorem doit_ignore_empty:
  "doit_ignore dbFileName taskList [] s =
     Some (None, s\<lparr>out := out s @ [''You cant ignore all tasks! Please select a task.\<newline>'']\<rparr>)
   \<and> records (snd (the (doit_ignore dbFileName taskList [] s))) = records s
   \<and> calls (snd (the (doit_ignore dbFileName taskList [] s))) = calls s"
  by (simp add: doit_ignore_def outstream_write_def)

text \<open>
  C2. Let \<open>G\<close> name a group task (no actions) of the dictionary whose \<open>task_dep\<close> is
  \<open>[X, Y]\<close>, where \<open>X\<close> and \<open>Y\<close> name tasks with actions. Then \<^verbatim>\<open>doit_forget\<close> called with
  \<open>[G]\<close> returns normally and the records of the store are those before the call with the
  ones of \<open>G\<close>, \<open>X\<close> and \<open>Y\<close> removed; \<^verbatim>\<open>doit_ignore\<close> called with \<open>[G]\<close> returns normally,
  the three names have a record that is marked ignored and every other record is
  unchanged. Forgetting \<open>[L]\<close>, where \<open>L\<close> names a task with actions, removes the record of
  \<open>L\<close> and changes no other.
\<close>

theorem forget_ignore_group_and_leaf:
  assumes G: "tasks_dict taskList G = Some g" "actions g = []" "task_dep g = [X, Y]"
    and X: "tasks_dict taskList X = Some x" "actions x \<noteq> []"
    and Y: "tasks_dict taskList Y = Some y" "actions y \<noteq> []"
    and L: "tasks_dict taskList L = Some l" "actions l \<noteq> []"
  shows "(\<exists>s'. doit_forget dbFileName taskList [G] s = Some (None, s')
            \<and> records s' = (records s)(G := None, X := None, Y := None))
       \<and> (\<exists>s'. doit_ignore dbFileName taskList [G] s = Some (None, s')
            \<and> (\<forall>n\<in>{G, X, Y}. \<exists>r. records s' n = Some r \<and> ignored r)
            \<and> (\<forall>n. n \<notin> {G, X, Y} \<longrightarrow> records s' n = records s n))
       \<and> (\<exists>s'. doit_forget dbFileName taskList [L] s = Some (None, s')
            \<and> records s' = (records s)(L := None))"
proof -
  have nm: "name g = G" "name x = X" "name y = Y"
    using G(1) X(1) Y(1) by (auto dest: tasks_dict_name)
  have 1: "\<exists>s'. doit_forget dbFileName taskList [G] s = Some (None, s')
            \<and> records s' = (records s)(G := None, X := None, Y := None)"
    using G X Y by (simp add: doit_forget_def forget_group_Cons forget_group_Nil)
  have 2: "\<exists>s'. doit_ignore dbFileName taskList [G] s = Some (None, s')
            \<and> (\<forall>n\<in>{G, X, Y}. \<exists>r. records s' n = Some r \<and> ignored r)
            \<and> (\<forall>n. n \<notin> {G, X, Y} \<longrightarrow> records s' n = records s n)"
    using G X Y nm
    by (auto simp add: doit_ignore_def ignore_group_Cons ignore_group_Nil split: option.splits)
  have 3: "\<exists>s'. doit_forget dbFileName taskList [L] s = Some (None, s')
            \<and> records s' = (records s)(L := None)"
    using L by (simp add: doit_forget_def forget_group_Cons forget_group_Nil)
  show ?thesis using 1 2 3 by (intro conjI)
qed

text \<open>
  An instance of C2: the group \<open>g\<close> with members \<open>x\<close> and \<open>y\<close>, and the leaf \<open>l\<close>, in a store
  that holds a record for each.
\<close>

theorem forget_ignore_group_and_leaf_witness:
  "(\<exists>s'. doit_forget ''db''
            [leaf_task ''x'', leaf_task ''y'', group_task ''g'' [''x'', ''y''], leaf_task ''l'']
            [''g''] (store_of [''g'', ''x'', ''y'', ''l'']) = Some (None, s')
          \<and> records s' ''g'' = None \<and> records s' ''x'' = None \<and> records s' ''y'' = None
          \<and> records s' ''l'' = Some fresh_record)
   \<and> (\<exists>s'. doit_forget ''db''
            [leaf_task ''x'', leaf_task ''y'', group_task ''g'' [''x'', ''y''], leaf_task ''l'']
            [''l''] (store_of [''g'', ''x'', ''y'', ''l'']) = Some (None, s')
          \<and> records s' ''l'' = None \<and> records s' ''g'' = Some fresh_record
          \<and> records s' ''x'' = Some fresh_record \<and> records s' ''y'' = Some fresh_record)
   \<and> (\<exists>s'. doit_ignore ''db''
            [leaf_task ''x'', leaf_task ''y'', group_task ''g'' [''x'', ''y''], leaf_task ''l'']
            [''g''] (store_of [''g'', ''x'', ''y'', ''l'']) = Some (None, s')
          \<and> (\<exists>r. records s' ''y'' = Some r \<and> ignored r)
          \<and> records s' ''l'' = Some fresh_record)"
proof -
  let ?tl = "[leaf_task ''x'', leaf_task ''y'', group_task ''g'' [''x'', ''y''], leaf_task ''l'']"
  let ?s = "store_of [''g'', ''x'', ''y'', ''l'']"
  have g: "tasks_dict ?tl ''g'' = Some (group_task ''g'' [''x'', ''y''])"
    and x: "tasks_dict ?tl ''x'' = Some (leaf_task ''x'')"
    and y: "tasks_dict ?tl ''y'' = Some (leaf_task ''y'')"
    and l: "tasks_dict ?tl ''l'' = Some (leaf_task ''l'')"
    by (simp_all add: tasks_dict_def leaf_task_def group_task_def)
  have a: "actions (group_task ''g'' [''x'', ''y'']) = []"
    "task_dep (group_task ''g'' [''x'', ''y'']) = [''x'', ''y'']"
    "actions (leaf_task ''x'') \<noteq> []" "actions (leaf_task ''y'') \<noteq> []"
    "actions (leaf_task ''l'') \<noteq> []"
    by (simp_all add: leaf_task_def group_task_def)
  note t = forget_ignore_group_and_leaf[OF g a(1) a(2) x a(3) y a(4) l a(5), of "''db''" ?s]
  from t[THEN conjunct1] obtain s1 where s1: "doit_forget ''db'' ?tl [''g''] ?s = Some (None, s1)"
    "records s1 = (records ?s)(''g'' := None, ''x'' := None, ''y'' := None)"
    by (elim exE conjE) (rule that)
  from t[THEN conjunct2, THEN conjunct2] obtain s3 where
    s3: "doit_forget ''db'' ?tl [''l''] ?s = Some (None, s3)"
    "records s3 = (records ?s)(''l'' := None)"
    by (elim exE conjE) (rule that)
  have r1: "records s1 ''g'' = None \<and> records s1 ''x'' = None \<and> records s1 ''y'' = None
          \<and> records s1 ''l'' = Some fresh_record"
    unfolding s1(2) by (simp add: store_of_def)
  have r3: "records s3 ''l'' = None \<and> records s3 ''g'' = Some fresh_record
          \<and> records s3 ''x'' = Some fresh_record \<and> records s3 ''y'' = Some fresh_record"
    unfolding s3(2) by (simp add: store_of_def)
  from t[THEN conjunct2, THEN conjunct1] obtain s2 where
    s2: "doit_ignore ''db'' ?tl [''g''] ?s = Some (None, s2)"
    "\<forall>n\<in>{''g'', ''x'', ''y''}. \<exists>r. records s2 n = Some r \<and> ignored r"
    "\<forall>n. n \<notin> {''g'', ''x'', ''y''} \<longrightarrow> records s2 n = records ?s n"
    by (elim exE conjE) (rule that)
  have r2: "\<exists>r. records s2 ''y'' = Some r \<and> ignored r"
    using s2(2) by simp
  have r2': "records s2 ''l'' = Some fresh_record"
    using s2(3)[rule_format, of "''l''"] by (simp add: store_of_def)
  show ?thesis using s1(1) s3(1) r1 r3 s2(1) r2 r2'
    by (intro conjI exI[of _ s1] exI[of _ s3] exI[of _ s2]) simp_all
qed




text \<open>
  C5, as stated, fails. The claim: \<^verbatim>\<open>close()\<close> is called on every exit path, also when the
  unknown-name error is raised partway through the list. Here the list is \<open>[a, zz]\<close> and
  \<open>zz\<close> names no task: both functions raise, and no \<^verbatim>\<open>close\<close> is among the calls made.
\<close>

theorem close_skipped_on_error_counterexample:
  "(case doit_forget ''db'' [leaf_task ''a''] [''a'', ''zz''] (store_of [''a'']) of
      Some (Some e, s') \<Rightarrow>
        e = InvalidCommand (not_a_task ''zz'') \<and> DepClose \<notin> set (calls s')
    | _ \<Rightarrow> False)
   \<and> (case doit_ignore ''db'' [leaf_task ''a''] [''a'', ''zz''] (store_of [''a'']) of
      Some (Some e, s') \<Rightarrow>
        e = InvalidCommand (not_a_task ''zz'') \<and> DepClose \<notin> set (calls s')
    | _ \<Rightarrow> False)"
  by (simp add: eval_simps)

text \<open>
  C5, amended. Whenever \<^verbatim>\<open>doit_forget\<close>, or \<^verbatim>\<open>doit_ignore\<close> with a list that is not empty,
  returns normally, \<^verbatim>\<open>close()\<close> is called exactly once, as the last call on the dependency
  manager the function created. When they raise, \<^verbatim>\<open>close()\<close> is not called. \<^verbatim>\<open>doit_ignore\<close>
  with an empty list returns normally and makes no call on a dependency manager.
\<close>

theorem close_called_on_normal_return_only:
  "(\<forall>r s'. doit_forget dbFileName taskList names s = Some (r, s') \<longrightarrow>
      (\<exists>cs. DepClose \<notin> set cs \<and>
            calls s' = calls s @ [DepOpen dbFileName] @ cs
                       @ (if r = None then [DepClose] else [])))
   \<and> (\<forall>r s'. names \<noteq> [] \<longrightarrow> doit_ignore dbFileName taskList names s = Some (r, s') \<longrightarrow>
      (\<exists>cs. DepClose \<notin> set cs \<and>
            calls s' = calls s @ [DepOpen dbFileName] @ cs
                       @ (if r = None then [DepClose] else [])))
   \<and> (\<forall>r s'. doit_ignore dbFileName taskList [] s = Some (r, s') \<longrightarrow>
         r = None \<and> calls s' = calls s)"
proof (intro conjI allI impI)
  fix r s'
  assume d: "doit_forget dbFileName taskList names s = Some (r, s')"
  show "\<exists>cs. DepClose \<notin> set cs \<and>
            calls s' = calls s @ [DepOpen dbFileName] @ cs @ (if r = None then [DepClose] else [])"
  proof (cases "names = []")
    case True
    with d have "r = None" "calls s' = calls s @ [DepOpen dbFileName] @ [DepRemoveAll] @ [DepClose]"
      by (auto simp: doit_forget_def Let_def)
    then show ?thesis by (intro exI[of _ "[DepRemoveAll]"]) simp
  next
    case False
    with d obtain r1 s1 where
      f: "forget_names (tasks_dict taskList) names (Dependency dbFileName s) = Some (r1, s1)"
      by (cases "forget_names (tasks_dict taskList) names (Dependency dbFileName s)")
         (auto simp: doit_forget_def Let_def)
    from forget_names_calls[OF f] obtain ns where
      ns: "calls s1 = calls s @ [DepOpen dbFileName] @ map DepRemove ns" by auto
    have nc: "DepClose \<notin> set (map DepRemove ns)" by auto
    show ?thesis
    proof (cases r1)
      case None
      with d f False have "r = None" "s' = Dependency_close s1"
        by (auto simp: doit_forget_def Let_def)
      then have "calls s' = calls s @ [DepOpen dbFileName] @ map DepRemove ns
                   @ (if r = None then [DepClose] else [])"
        using ns by simp
      then show ?thesis using nc by (intro exI[of _ "map DepRemove ns"] conjI)
    next
      case (Some e)
      with d f False have "r = Some e" "s' = s1"
        by (auto simp: doit_forget_def Let_def)
      then have "calls s' = calls s @ [DepOpen dbFileName] @ map DepRemove ns
                   @ (if r = None then [DepClose] else [])"
        using ns by simp
      then show ?thesis using nc by (intro exI[of _ "map DepRemove ns"] conjI)
    qed
  qed
next
  fix r s'
  assume ne: "names \<noteq> []"
    and d: "doit_ignore dbFileName taskList names s = Some (r, s')"
  from d ne obtain r1 s1 where
    f: "ignore_names (tasks_dict taskList) names (Dependency dbFileName s) = Some (r1, s1)"
    by (cases "ignore_names (tasks_dict taskList) names (Dependency dbFileName s)")
       (auto simp: doit_ignore_def Let_def)
  from ignore_names_calls[OF f] obtain ns where
    ns: "calls s1 = calls s @ [DepOpen dbFileName] @ map DepIgnore ns" by auto
  have nc: "DepClose \<notin> set (map DepIgnore ns)" by auto
  show "\<exists>cs. DepClose \<notin> set cs \<and>
            calls s' = calls s @ [DepOpen dbFileName] @ cs @ (if r = None then [DepClose] else [])"
  proof (cases r1)
    case None
    with d f ne have "r = None" "s' = Dependency_close s1"
      by (auto simp: doit_ignore_def Let_def)
    then have "calls s' = calls s @ [DepOpen dbFileName] @ map DepIgnore ns
                 @ (if r = None then [DepClose] else [])"
      using ns by simp
    then show ?thesis using nc by (intro exI[of _ "map DepIgnore ns"] conjI)
  next
    case (Some e)
    with d f ne have "r = Some e" "s' = s1"
      by (auto simp: doit_ignore_def Let_def)
    then have "calls s' = calls s @ [DepOpen dbFileName] @ map DepIgnore ns
                 @ (if r = None then [DepClose] else [])"
      using ns by simp
    then show ?thesis using nc by (intro exI[of _ "map DepIgnore ns"] conjI)
  qed
next
  fix r s'
  assume "doit_ignore dbFileName taskList [] s = Some (r, s')"
  then show "r = None" "calls s' = calls s"
    by (auto simp: doit_ignore_def)
qed

text \<open>
  An instance of C5 as amended: a normal return of \<^verbatim>\<open>doit_forget\<close>, and a raise of
  \<^verbatim>\<open>doit_ignore\<close>.
\<close>

theorem close_called_on_normal_return_only_witness:
  "(\<exists>s' cs. doit_forget ''db'' [leaf_task ''a''] [''a''] (store_of [''a'']) = Some (None, s')
        \<and> DepClose \<notin> set cs \<and> calls s' = [DepOpen ''db''] @ cs @ [DepClose])
   \<and> (\<exists>e s' cs. doit_ignore ''db'' [leaf_task ''a''] [''a'', ''zz''] (store_of [''a''])
                   = Some (Some e, s')
        \<and> DepClose \<notin> set cs \<and> calls s' = [DepOpen ''db''] @ cs)"
proof -
  let ?tl = "[leaf_task ''a'']"
  let ?s = "store_of [''a'']"
  obtain s1 where d1: "doit_forget ''db'' ?tl [''a''] ?s = Some (None, s1)"
    by (simp add: eval_simps)
  obtain e s2 where d2: "doit_ignore ''db'' ?tl [''a'', ''zz''] ?s = Some (Some e, s2)"
    by (simp add: eval_simps)
  note t = close_called_on_normal_return_only[of "''db''" ?tl _ ?s]
  from t[of "[''a'']", THEN conjunct1, rule_format, OF d1]
  obtain cs1 where c1: "DepClose \<notin> set cs1"
    "calls s1 = calls ?s @ [DepOpen ''db''] @ cs1 @ (if (None::error option) = None then [DepClose] else [])"
    by (elim exE conjE) (rule that)
  have ne: "[''a'', ''zz''] \<noteq> []" by simp
  from t[of "[''a'', ''zz'']", THEN conjunct2, THEN conjunct1, rule_format, OF ne d2]
  obtain cs2 where c2: "DepClose \<notin> set cs2"
    "calls s2 = calls ?s @ [DepOpen ''db''] @ cs2 @ (if Some e = None then [DepClose] else [])"
    by (elim exE conjE) (rule that)
  have a: "calls s1 = [DepOpen ''db''] @ cs1 @ [DepClose]"
    using c1(2) by (simp add: store_of_def)
  have b: "calls s2 = [DepOpen ''db''] @ cs2"
    using c2(2) by (simp add: store_of_def)
  show ?thesis
    using d1 d2 c1(1) c2(1) a b
    by (intro conjI exI[of _ s1] exI[of _ cs1] exI[of _ e] exI[of _ s2] exI[of _ cs2])
qed

text \<open>
  C9. If the \<open>task_dep\<close> edges that leave the group tasks reachable from the requested
  names form an acyclic graph, \<^verbatim>\<open>doit_forget\<close> and \<^verbatim>\<open>doit_ignore\<close> return (normally or with
  an error): their work-list loops terminate. The loops keep no visited set: on a group
  task that is its own member neither function returns.
\<close>

theorem worklist_loops_terminate:
  "(acyclic (reachable_edges (tasks_dict taskList) names) \<longrightarrow>
      (\<exists>r. doit_forget dbFileName taskList names s = Some r) \<and>
      (\<exists>r. doit_ignore dbFileName taskList names s = Some r))
   \<and> doit_forget dbFileName [group_task ''g'' [''g'']] [''g''] s = None
   \<and> doit_ignore dbFileName [group_task ''g'' [''g'']] [''g''] s = None"
proof (intro conjI impI)
  assume ac: "acyclic (reachable_edges (tasks_dict taskList) names)"
  have "forget_names (tasks_dict taskList) names (Dependency dbFileName s) \<noteq> None"
    by (rule forget_names_terminates[OF ac]) simp
  then show "\<exists>r. doit_forget dbFileName taskList names s = Some r"
    by (auto simp: doit_forget_def Let_def split: option.splits)
  have "ignore_names (tasks_dict taskList) names (Dependency dbFileName s) \<noteq> None"
    by (rule ignore_names_terminates[OF ac]) simp
  then show "\<exists>r. doit_ignore dbFileName taskList names s = Some r"
    by (auto simp: doit_ignore_def Let_def split: option.splits)
qed (rule self_loop_diverges)+

text \<open>An instance of C9: the group \<open>g\<close> with members \<open>x\<close> and \<open>y\<close> is acyclic.\<close>

theorem worklist_loops_terminate_witness:
  "acyclic (reachable_edges
     (tasks_dict [leaf_task ''x'', leaf_task ''y'', group_task ''g'' [''x'', ''y'']]) [''g''])
   \<and> (\<exists>r. doit_forget ''db'' [leaf_task ''x'', leaf_task ''y'', group_task ''g'' [''x'', ''y'']]
             [''g''] (store_of []) = Some r)
   \<and> (\<exists>r. doit_ignore ''db'' [leaf_task ''x'', leaf_task ''y'', group_task ''g'' [''x'', ''y'']]
             [''g''] (store_of []) = Some r)"
proof -
  note t = worklist_loops_terminate[of
      "[leaf_task ''x'', leaf_task ''y'', group_task ''g'' [''x'', ''y'']]"
      "[''g'']" "''db''" "store_of []", THEN conjunct1, rule_format, OF example_graph_acyclic]
  show ?thesis
    by (intro conjI) (rule example_graph_acyclic, rule t[THEN conjunct1], rule t[THEN conjunct2])
qed

text \<open>
  C6, as stated, fails. The claim: whenever the reporter name is not in the registry, the
  command error that names the reporter is raised. \<^verbatim>\<open>doit_run\<close> selects the tasks (line 18)
  before it looks the reporter up (line 19): here the requested task \<open>nope\<close> does not exist
  and the reporter \<open>bogus\<close> is not registered, and the error raised is the one of the task
  selection, which names the task.
\<close>

theorem unknown_reporter_error_counterexample:
  "REPORTERS example_env ''bogus'' = None
   \<and> doit_run example_env ''db'' [leaf_task ''a''] OutStream (Some [''nope'']) None False False
        ''bogus'' empty_run_state
      = (Inl (InvalidCommand (not_a_task ''nope'')), empty_run_state)
   \<and> InvalidCommand (not_a_task ''nope'') \<noteq> InvalidCommand (no_reporter ''bogus'')"
  by (simp add: doit_run_def TaskSetup_process_def tasks_dict_def leaf_task_def example_env_def
      not_a_task_def no_reporter_def)

text \<open>
  C6, amended. Whenever the reporter name is not in the registry, \<^verbatim>\<open>doit_run\<close> raises before
  the runner is entered and without opening the output: the command error that names the
  reporter when the task selection succeeds, and the error of the task selection
  otherwise.
\<close>

theorem unknown_reporter_never_runs:
  assumes "REPORTERS env reporter = None"
  shows "doit_run env dependencyFile task_list outp options verbosity alwaysExecute continue
           reporter s =
           (case TaskSetup_process task_list options of
              Inl e \<Rightarrow> (Inl e, s)
            | Inr selected_tasks \<Rightarrow> (Inl (InvalidCommand (no_reporter reporter)), s))
       \<and> (\<exists>e. fst (doit_run env dependencyFile task_list outp options verbosity alwaysExecute
                    continue reporter s) = Inl e)
       \<and> runner_calls (snd (doit_run env dependencyFile task_list outp options verbosity
                    alwaysExecute continue reporter s)) = runner_calls s"
  using assms by (auto simp: doit_run_def split: sum.splits)

text \<open>An instance of C6 as amended: the reporter \<open>bogus\<close> is not registered.\<close>

theorem unknown_reporter_never_runs_witness:
  "REPORTERS example_env ''bogus'' = None
   \<and> doit_run example_env ''db'' [leaf_task ''a''] OutStream (Some [''a'']) None False False
        ''bogus'' empty_run_state
      = (Inl (InvalidCommand (no_reporter ''bogus'')), empty_run_state)"
proof -
  have h: "REPORTERS example_env ''bogus'' = None" by (simp add: example_env_def)
  have p: "TaskSetup_process [leaf_task ''a''] (Some [''a'']) = Inr [leaf_task ''a'']"
    by (simp add: TaskSetup_process_def tasks_dict_def leaf_task_def)
  show ?thesis
    using h unknown_reporter_never_runs[OF h, of "''db''" "[leaf_task ''a'']" OutStream
        "Some [''a'']" None False False empty_run_state, THEN conjunct1]
    unfolding p by simp
qed

text \<open>
  C7. With \<^verbatim>\<open>print_status\<close> set, every line \<^verbatim>\<open>doit_list\<close> writes is, for some task of the
  list, the letter \<^verbatim>\<open>status_map\<close> gives for the status the dependency manager returns for
  that task, a space, and the task string. \<^verbatim>\<open>status_map\<close> maps \<open>ignore\<close>, \<open>up-to-date\<close> and
  \<open>run\<close> to the letters \<open>I\<close>, \<open>U\<close> and \<open>R\<close>, and nothing else. With the status of the spec:
  a task with no record gets \<open>R\<close>; a task whose record was committed with the current
  fingerprints of its file dependencies (all of them exist, the record is not marked
  ignored, and the tasks it depends on are up to date) gets \<open>U\<close>; a task that was ignored
  gets \<open>I\<close>, whatever the fingerprints of the files are.
\<close>

theorem list_status_letters:
  "(\<forall>r s'. doit_list d gs dependencyFile task_list filter_tasks print_subtasks print_doc True
            print_private s = (r, s') \<longrightarrow>
      (\<exists>ls. out s' = out s @ ls \<and>
         (\<forall>l\<in>set ls. \<exists>t\<in>set task_list. status_line gs print_doc t = Some l)))
   \<and> (\<forall>st c. status_map st = Some c \<longleftrightarrow>
         (st = ''ignore'' \<and> c = ''I'') \<or> (st = ''up-to-date'' \<and> c = ''U'')
         \<or> (st = ''run'' \<and> c = ''R''))
   \<and> (recs (name t) = None \<longrightarrow>
         status_line (get_status_of (Suc k) tasks fs recs) print_doc t =
           Some (''R '' @ task_str print_doc t @ ''\<newline>''))
   \<and> ((case recs (name t) of None \<Rightarrow> True | Some r \<Rightarrow> \<not> ignored r) \<longrightarrow>
      (\<forall>f\<in>set (file_dep t). fs f \<noteq> None) \<longrightarrow>
      (\<forall>n\<in>set (task_dep t). \<exists>t'. tasks n = Some t' \<and>
          Dependency_get_status k tasks fs
            (Dependency_commit t (fs |` set (file_dep t)) recs) t' = Some ''up-to-date'') \<longrightarrow>
         status_line (get_status_of (Suc k) tasks fs
             (Dependency_commit t (fs |` set (file_dep t)) recs)) print_doc t =
           Some (''U '' @ task_str print_doc t @ ''\<newline>''))
   \<and> status_line (get_status_of (Suc k) tasks fs (records (Dependency_ignore t s0)))
         print_doc t =
       Some (''I '' @ task_str print_doc t @ ''\<newline>'')"
proof (intro conjI allI impI)
  fix r s'
  assume "doit_list d gs dependencyFile task_list filter_tasks print_subtasks print_doc True
            print_private s = (r, s')"
  then show "\<exists>ls. out s' = out s @ ls \<and>
         (\<forall>l\<in>set ls. \<exists>t\<in>set task_list. status_line gs print_doc t = Some l)"
    by (rule doit_list_lines)
next
  fix st c
  show "status_map st = Some c \<longleftrightarrow>
         (st = ''ignore'' \<and> c = ''I'') \<or> (st = ''up-to-date'' \<and> c = ''U'')
         \<or> (st = ''run'' \<and> c = ''R'')"
    by (rule status_map_iff)
next
  assume "recs (name t) = None"
  then show "status_line (get_status_of (Suc k) tasks fs recs) print_doc t =
           Some (''R '' @ task_str print_doc t @ ''\<newline>'')"
    by (simp add: status_line_def get_status_of_def status_map_def)
next
  assume "case recs (name t) of None \<Rightarrow> True | Some r \<Rightarrow> \<not> ignored r"
    "\<forall>f\<in>set (file_dep t). fs f \<noteq> None"
    "\<forall>n\<in>set (task_dep t). \<exists>t'. tasks n = Some t' \<and>
          Dependency_get_status k tasks fs
            (Dependency_commit t (fs |` set (file_dep t)) recs) t' = Some ''up-to-date''"
  then have "Dependency_get_status (Suc k) tasks fs
           (Dependency_commit t (fs |` set (file_dep t)) recs) t = Some ''up-to-date''"
    by (rule status_committed)
  then show "status_line (get_status_of (Suc k) tasks fs
             (Dependency_commit t (fs |` set (file_dep t)) recs)) print_doc t =
           Some (''U '' @ task_str print_doc t @ ''\<newline>'')"
    by (simp add: status_line_def get_status_of_def status_map_def)
next
  show "status_line (get_status_of (Suc k) tasks fs (records (Dependency_ignore t s0)))
         print_doc t =
       Some (''I '' @ task_str print_doc t @ ''\<newline>'')"
    using status_ignored[of k tasks fs t s0]
    by (simp add: status_line_def get_status_of_def status_map_def)
qed

text \<open>
  An instance of C7: the task \<open>b\<close> with the file dependency \<open>f\<close>, with no record, after a
  commit, and after an ignore.
\<close>

theorem list_status_letters_witness:
  "doit_list (Suc 0)
     (get_status_of (Suc 0) Map.empty [''f'' \<mapsto> ''h1'']
        (Dependency_commit ((leaf_task ''b'')\<lparr>file_dep := [''f'']\<rparr>)
           ([''f'' \<mapsto> ''h1''] |` set (file_dep ((leaf_task ''b'')\<lparr>file_dep := [''f'']\<rparr>)))
           Map.empty))
     ''db'' [(leaf_task ''b'')\<lparr>file_dep := [''f'']\<rparr>] [] False False True False (store_of [])
     = (Inr 0, outstream_write ''U b\<newline>'' (Dependency ''db'' (store_of [])))
   \<and> status_line (get_status_of (Suc 0) Map.empty [''f'' \<mapsto> ''h1''] Map.empty) False
        ((leaf_task ''b'')\<lparr>file_dep := [''f'']\<rparr>) = Some ''R b\<newline>''
   \<and> status_line (get_status_of (Suc 0) Map.empty [''f'' \<mapsto> ''h1'']
         (Dependency_commit ((leaf_task ''b'')\<lparr>file_dep := [''f'']\<rparr>)
           ([''f'' \<mapsto> ''h1''] |` set (file_dep ((leaf_task ''b'')\<lparr>file_dep := [''f'']\<rparr>)))
           Map.empty)) False
        ((leaf_task ''b'')\<lparr>file_dep := [''f'']\<rparr>) = Some ''U b\<newline>''
   \<and> status_line (get_status_of (Suc 0) Map.empty [''f'' \<mapsto> ''h1'']
         (records (Dependency_ignore ((leaf_task ''b'')\<lparr>file_dep := [''f'']\<rparr>) (store_of []))))
        False ((leaf_task ''b'')\<lparr>file_dep := [''f'']\<rparr>) = Some ''I b\<newline>''
   \<and> (\<exists>ls. out (outstream_write ''U b\<newline>'' (Dependency ''db'' (store_of [])))
             = out (store_of []) @ ls
          \<and> list_all (\<lambda>l. l = ''U b\<newline>'') ls)"
proof -
  let ?b = "(leaf_task ''b'')\<lparr>file_dep := [''f'']\<rparr>"
  let ?fs = "[''f'' \<mapsto> ''h1'']"
  let ?recs = "Dependency_commit ?b (?fs |` set (file_dep ?b)) Map.empty"
  let ?gs = "get_status_of (Suc 0) Map.empty ?fs ?recs"
  let ?S = "outstream_write ''U b\<newline>'' (Dependency ''db'' (store_of []))"
  note t = list_status_letters[of "Suc 0" ?gs "''db''" "[?b]" "[]" False False False
      "store_of []" Map.empty ?b 0 Map.empty ?fs "store_of []"]
  have nb: "name ?b = ''b''" "task_dep ?b = []" "file_dep ?b = [''f'']"
    "task_str False ?b = ''b''"
    by (simp_all add: leaf_task_def task_str_def)
  have h1: "(Map.empty :: string \<rightharpoonup> dep_record) (name ?b) = None" by simp
  have h2: "case (Map.empty :: string \<rightharpoonup> dep_record) (name ?b) of
              None \<Rightarrow> True | Some r \<Rightarrow> \<not> ignored r" by simp
  have h3: "\<forall>f\<in>set (file_dep ?b). ?fs f \<noteq> None" by (simp add: nb)
  have h4: "\<forall>n\<in>set (task_dep ?b). \<exists>t'. Map.empty n = Some t' \<and>
          Dependency_get_status 0 Map.empty ?fs ?recs t' = Some ''up-to-date''"
    by (simp add: nb)
  have R: "status_line (get_status_of (Suc 0) Map.empty ?fs Map.empty) False ?b
            = Some ''R b\<newline>''"
    using t[THEN conjunct2, THEN conjunct2, THEN conjunct1, rule_format, OF h1]
    by (simp add: nb)
  have U: "status_line ?gs False ?b = Some ''U b\<newline>''"
    using t[THEN conjunct2, THEN conjunct2, THEN conjunct2, THEN conjunct1, rule_format,
        OF h2 h3[rule_format] h4[rule_format]]
    by (simp add: nb)
  have I: "status_line (get_status_of (Suc 0) Map.empty ?fs
         (records (Dependency_ignore ?b (store_of [])))) False ?b = Some ''I b\<newline>''"
    using t[THEN conjunct2, THEN conjunct2, THEN conjunct2, THEN conjunct2]
    by (simp add: nb)
  have d: "doit_list (Suc 0) ?gs ''db'' [?b] [] False False True False (store_of []) = (Inr 0, ?S)"
    by (simp add: doit_list_def get_status_of_def Dependency_commit_def status_map_def
        task_str_def leaf_task_def startswith_def restrict_map_def)
  from t[THEN conjunct1, rule_format, OF d] obtain ls where
    ls: "out ?S = out (store_of []) @ ls"
    "\<forall>l\<in>set ls. \<exists>t\<in>set [?b]. status_line ?gs False t = Some l"
    by (elim exE conjE) (rule that)
  have "list_all (\<lambda>l. l = ''U b\<newline>'') ls"
    using ls(2) U by (auto simp: list_all_iff)
  with ls(1) have E: "\<exists>ls. out ?S = out (store_of []) @ ls \<and> list_all (\<lambda>l. l = ''U b\<newline>'') ls"
    by (intro exI[of _ ls] conjI)
  show ?thesis using d R U I E by (intro conjI)
qed

text \<open>
  C8. When the selection of the tasks succeeds, the watcher \<^verbatim>\<open>doit_auto\<close> creates is built
  once, from the \<open>file_dep\<close> of the selected tasks: its files are the absolute paths of
  their union; its directories are the parent directories of these files, each one once;
  the loop installs exactly one watch for each of them, whatever events follow;
  \<^verbatim>\<open>_handle\<close> passes an event to \<^verbatim>\<open>handle_event\<close> exactly when its pathname is one of the
  watched files; and, where the reporter \<open>executed-only\<close> is registered and the runner
  returns, the runner is called once for each such event of the events received.
\<close>

theorem auto_watch_set_and_filter:
  assumes sel: "TaskSetup_process task_list filter_tasks = Inr selected"
  shows "doit_auto_watcher os task_list filter_tasks =
           Inr (FileModifyWatcher os (concat (map file_dep selected)))
    \<and> set (file_list (FileModifyWatcher os (concat (map file_dep selected)))) =
        abspath os ` (\<Union>t\<in>set selected. set (file_dep t))
    \<and> distinct (watch_dirs (FileModifyWatcher os (concat (map file_dep selected))))
    \<and> set (watch_dirs (FileModifyWatcher os (concat (map file_dep selected)))) =
        dirname os ` set (file_list (FileModifyWatcher os (concat (map file_dep selected))))
    \<and> (\<forall>evs s r s'. doit_auto env os dependency_file task_list filter_tasks evs s = (r, s') \<longrightarrow>
          watches s' = watches s
             @ watch_dirs (FileModifyWatcher os (concat (map file_dep selected))))
    \<and> (\<forall>(h :: event \<Rightarrow> run_state \<Rightarrow> error option \<times> run_state) ev s.
          FileModifyWatcher_handle (FileModifyWatcher os (concat (map file_dep selected))) h ev s =
            (if pathname ev \<in> abspath os ` (\<Union>t\<in>set selected. set (file_dep t))
             then h ev s else (None, s)))
    \<and> (\<forall>cls rc evs s.
          REPORTERS env ''executed-only'' = Some cls \<longrightarrow>
          run_tasks env (RunTasks dependency_file selected
             (Reporter cls OutStream (DEFAULT_VERBOSITY env < 2) True) None False False) = Inr rc \<longrightarrow>
          (\<exists>s'. doit_auto env os dependency_file task_list filter_tasks evs s = (None, s')
              \<and> runner_calls s' = runner_calls s @
                   replicate
                     (length (filter (\<lambda>ev. pathname ev \<in>
                         abspath os ` (\<Union>t\<in>set selected. set (file_dep t))) evs))
                     (RunTasks dependency_file selected
                        (Reporter cls OutStream (DEFAULT_VERBOSITY env < 2) True)
                        None False False)))"
proof -
  let ?w = "FileModifyWatcher os (concat (map file_dep selected))"
  have fl: "set (file_list ?w) = abspath os ` (\<Union>t\<in>set selected. set (file_dep t))"
    by (simp add: FileModifyWatcher_def)
  have 1: "doit_auto_watcher os task_list filter_tasks = Inr ?w"
    using sel by (simp add: doit_auto_watcher_def)
  have 3: "distinct (watch_dirs ?w)" by (simp add: FileModifyWatcher_def)
  have 4: "set (watch_dirs ?w) = dirname os ` set (file_list ?w)"
    by (simp add: FileModifyWatcher_def)
  have 5: "watches s' = watches s @ watch_dirs ?w"
    if "doit_auto env os dependency_file task_list filter_tasks evs s = (r, s')" for evs s r s'
  proof -
    from that 1 have "notifier_loop ?w
        (DoitAutoRun_handle_event env dependency_file task_list filter_tasks) evs
        (s\<lparr>watches := watches s @ watch_dirs ?w\<rparr>) = (r, s')"
      by (simp add: doit_auto_def FileModifyWatcher_loop_def)
    from notifier_loop_watches[OF this] show ?thesis by simp
  qed
  have 6: "FileModifyWatcher_handle ?w h ev s =
            (if pathname ev \<in> abspath os ` (\<Union>t\<in>set selected. set (file_dep t))
             then h ev s else (None, s))"
    for h :: "event \<Rightarrow> run_state \<Rightarrow> error option \<times> run_state" and ev s
    unfolding FileModifyWatcher_handle_def fl by simp
  have 7: "\<exists>s'. doit_auto env os dependency_file task_list filter_tasks evs s = (None, s')
              \<and> runner_calls s' = runner_calls s @
                   replicate
                     (length (filter (\<lambda>ev. pathname ev \<in>
                         abspath os ` (\<Union>t\<in>set selected. set (file_dep t))) evs))
                     (RunTasks dependency_file selected
                        (Reporter cls OutStream (DEFAULT_VERBOSITY env < 2) True)
                        None False False)"
    if r: "REPORTERS env ''executed-only'' = Some cls"
      and rt: "run_tasks env (RunTasks dependency_file selected
             (Reporter cls OutStream (DEFAULT_VERBOSITY env < 2) True) None False False) = Inr rc"
    for cls rc evs s
    using notifier_loop_runs[OF sel r rt, of ?w evs "s\<lparr>watches := watches s @ watch_dirs ?w\<rparr>"]
    unfolding fl using 1 by (simp add: doit_auto_def FileModifyWatcher_loop_def)
  show ?thesis
  proof (intro conjI allI impI)
    show "doit_auto_watcher os task_list filter_tasks = Inr ?w" by (rule 1)
    show "set (file_list ?w) = abspath os ` (\<Union>t\<in>set selected. set (file_dep t))" by (rule fl)
    show "distinct (watch_dirs ?w)" by (rule 3)
    show "set (watch_dirs ?w) = dirname os ` set (file_list ?w)" by (rule 4)
  next
    fix evs s r s'
    assume "doit_auto env os dependency_file task_list filter_tasks evs s = (r, s')"
    then show "watches s' = watches s @ watch_dirs ?w" by (rule 5)
  next
    fix h :: "event \<Rightarrow> run_state \<Rightarrow> error option \<times> run_state" and ev s
    show "FileModifyWatcher_handle ?w h ev s =
            (if pathname ev \<in> abspath os ` (\<Union>t\<in>set selected. set (file_dep t))
             then h ev s else (None, s))" by (rule 6)
  next
    fix cls rc evs s
    assume r: "REPORTERS env ''executed-only'' = Some cls"
      and rt: "run_tasks env (RunTasks dependency_file selected
             (Reporter cls OutStream (DEFAULT_VERBOSITY env < 2) True) None False False) = Inr rc"
    show "\<exists>s'. doit_auto env os dependency_file task_list filter_tasks evs s = (None, s')
              \<and> runner_calls s' = runner_calls s @
                   replicate
                     (length (filter (\<lambda>ev. pathname ev \<in>
                         abspath os ` (\<Union>t\<in>set selected. set (file_dep t))) evs))
                     (RunTasks dependency_file selected
                        (Reporter cls OutStream (DEFAULT_VERBOSITY env < 2) True)
                        None False False)" by (rule 7[OF r rt])
  qed
qed

text \<open>
  An instance of C8: one task that depends on \<open>a.c\<close> (twice) and \<open>d/b.c\<close>, and three events,
  one of them for a file of a watched directory that is not watched.
\<close>

theorem auto_watch_set_and_filter_witness:
  "TaskSetup_process [(leaf_task ''t'')\<lparr>file_dep := [''a.c'', ''d/b.c'', ''a.c'']\<rparr>] None
     = Inr [(leaf_task ''t'')\<lparr>file_dep := [''a.c'', ''d/b.c'', ''a.c'']\<rparr>]
   \<and> (\<exists>s'. doit_auto example_env example_os ''db''
              [(leaf_task ''t'')\<lparr>file_dep := [''a.c'', ''d/b.c'', ''a.c'']\<rparr>] None
              [\<lparr>pathname = ''/w/a.c''\<rparr>, \<lparr>pathname = ''/w/x.c''\<rparr>, \<lparr>pathname = ''/w/d/b.c''\<rparr>]
              empty_run_state = (None, s')
          \<and> length (runner_calls s') = 2
          \<and> set (watches s') = {''/w'', ''/w/d''} \<and> length (watches s') = 2)"
proof -
  let ?t = "(leaf_task ''t'')\<lparr>file_dep := [''a.c'', ''d/b.c'', ''a.c'']\<rparr>"
  let ?evs = "[\<lparr>pathname = ''/w/a.c''\<rparr>, \<lparr>pathname = ''/w/x.c''\<rparr>, \<lparr>pathname = ''/w/d/b.c''\<rparr>]"
  let ?c = "RunTasks ''db'' [?t]
             (Reporter ''ExecutedOnlyReporter'' OutStream (DEFAULT_VERBOSITY example_env < 2) True)
             None False False"
  have sel: "TaskSetup_process [?t] None = Inr [?t]"
    by (simp add: TaskSetup_process_def tasks_dict_def leaf_task_def)
  have r: "REPORTERS example_env ''executed-only'' = Some ''ExecutedOnlyReporter''"
    by (simp add: example_env_def)
  have rt: "run_tasks example_env ?c = Inr 0"
    by (simp add: example_env_def)
  note t = auto_watch_set_and_filter[OF sel, of example_os example_env "''db''"]
  from t[THEN conjunct2, THEN conjunct2, THEN conjunct2, THEN conjunct2, THEN conjunct2,
      THEN conjunct2, rule_format, OF r rt, of ?evs empty_run_state]
  obtain s' where s': "doit_auto example_env example_os ''db'' [?t] None ?evs empty_run_state
        = (None, s')"
    "runner_calls s' = runner_calls empty_run_state @
       replicate (length (filter (\<lambda>ev. pathname ev \<in>
            abspath example_os ` (\<Union>t\<in>set [?t]. set (file_dep t))) ?evs)) ?c"
    by (elim exE conjE) (rule that)
  have n: "length (runner_calls s') = 2"
    unfolding s'(2) by (simp add: empty_run_state_def example_os_def leaf_task_def)
  have "watches s' = watches empty_run_state
          @ watch_dirs (FileModifyWatcher example_os (concat (map file_dep [?t])))"
    by (rule t[THEN conjunct2, THEN conjunct2, THEN conjunct2, THEN conjunct2, THEN conjunct1,
        rule_format, OF s'(1)])
  then have w: "set (watches s') = {''/w'', ''/w/d''}" "length (watches s') = 2"
    by (auto simp add: empty_run_state_def FileModifyWatcher_def example_os_def leaf_task_def)
  show ?thesis using sel s'(1) n w by (intro conjI exI[of _ s'])
qed

text \<open>
  C10. The loop over \<^verbatim>\<open>task.task_dep\<close> in \<^verbatim>\<open>_list_print_task\<close> acts as on the sublist of the
  names that start with \<^verbatim>\<open>task.name\<close>: with \<^verbatim>\<open>print_subtasks\<close> set, printing a task is
  writing its line and then running the loop on that sublist; an entry that passes the test
  is printed by a recursive call on \<^verbatim>\<open>tasks[subt]\<close>, an entry that fails it is skipped.
  Changing the \<open>is_subtask\<close> flag of the task or of any task of the dictionary changes
  nothing of what is printed (for a \<^verbatim>\<open>get_status\<close> that does not read the flag).
\<close>

theorem subtasks_by_name_prefix:
  "list_print_subtasks d gs tasks ps print_doc pst t subs s =
     list_print_subtasks d gs tasks ps print_doc pst t
       (filter (\<lambda>subt. startswith subt (name t)) subs) s
   \<and> list_print_task (Suc d) gs tasks True print_doc False t s =
     list_print_subtasks d gs tasks True print_doc False t
       (filter (\<lambda>subt. startswith subt (name t)) (task_dep t))
       (outstream_write (task_str print_doc t @ ''\<newline>'') s)
   \<and> (status_line gs print_doc t = Some line \<longrightarrow>
       list_print_task (Suc d) gs tasks True print_doc True t s =
       list_print_subtasks d gs tasks True print_doc True t
         (filter (\<lambda>subt. startswith subt (name t)) (task_dep t))
         (outstream_write line s))
   \<and> (startswith subt (name t) \<longrightarrow>
       list_print_subtasks d gs tasks ps print_doc pst t (subt # rest) s =
         (case tasks subt of
            None \<Rightarrow> (Some (KeyError subt), s)
          | Some t' \<Rightarrow>
              (case list_print_task d gs tasks ps print_doc pst t' s of
                 (Some e, s') \<Rightarrow> (Some e, s')
               | (None, s') \<Rightarrow> list_print_subtasks d gs tasks ps print_doc pst t rest s')))
   \<and> (\<not> startswith subt (name t) \<longrightarrow>
       list_print_subtasks d gs tasks ps print_doc pst t (subt # rest) s =
       list_print_subtasks d gs tasks ps print_doc pst t rest s)
   \<and> ((\<forall>t b. gs (t\<lparr>is_subtask := b\<rparr>) = gs t) \<longrightarrow>
       list_print_task d gs (\<lambda>n. map_option (\<lambda>t. t\<lparr>is_subtask := fl t\<rparr>) (tasks n))
         ps print_doc pst (t\<lparr>is_subtask := b\<rparr>) s
       = list_print_task d gs tasks ps print_doc pst t s)"
proof (intro conjI impI)
  show "list_print_subtasks d gs tasks ps print_doc pst t subs s =
     list_print_subtasks d gs tasks ps print_doc pst t
       (filter (\<lambda>subt. startswith subt (name t)) subs) s"
    by (rule list_print_subtasks_filter)
  show "list_print_task (Suc d) gs tasks True print_doc False t s =
     list_print_subtasks d gs tasks True print_doc False t
       (filter (\<lambda>subt. startswith subt (name t)) (task_dep t))
       (outstream_write (task_str print_doc t @ ''\<newline>'') s)"
    using list_print_subtasks_filter[of d gs tasks True print_doc False t "task_dep t"]
    by simp
next
  assume "status_line gs print_doc t = Some line"
  then obtain st c where g: "gs t = Inr st" "status_map st = Some c"
      "line = c @ '' '' @ task_str print_doc t @ ''\<newline>''"
    by (auto simp: status_line_def split: sum.splits option.splits)
  then show "list_print_task (Suc d) gs tasks True print_doc True t s =
       list_print_subtasks d gs tasks True print_doc True t
         (filter (\<lambda>subt. startswith subt (name t)) (task_dep t))
         (outstream_write line s)"
    using list_print_subtasks_filter[of d gs tasks True print_doc True t "task_dep t"]
    by simp
next
  assume "startswith subt (name t)"
  then show "list_print_subtasks d gs tasks ps print_doc pst t (subt # rest) s =
         (case tasks subt of
            None \<Rightarrow> (Some (KeyError subt), s)
          | Some t' \<Rightarrow>
              (case list_print_task d gs tasks ps print_doc pst t' s of
                 (Some e, s') \<Rightarrow> (Some e, s')
               | (None, s') \<Rightarrow> list_print_subtasks d gs tasks ps print_doc pst t rest s'))"
    by simp
next
  assume "\<not> startswith subt (name t)"
  then show "list_print_subtasks d gs tasks ps print_doc pst t (subt # rest) s =
       list_print_subtasks d gs tasks ps print_doc pst t rest s"
    by simp
next
  assume "\<forall>t b. gs (t\<lparr>is_subtask := b\<rparr>) = gs t"
  then show "list_print_task d gs (\<lambda>n. map_option (\<lambda>t. t\<lparr>is_subtask := fl t\<rparr>) (tasks n))
         ps print_doc pst (t\<lparr>is_subtask := b\<rparr>) s
       = list_print_task d gs tasks ps print_doc pst t s"
    by (rule list_print_flag_independent(1))
qed

text \<open>
  An instance of C10: of the \<open>task_dep\<close> of \<open>t\<close>, the names \<open>t:a\<close> and \<open>t:b\<close> are printed (their
  tasks are not flagged as subtasks) and \<open>x\<close> is not (its task is flagged as a subtask).
\<close>

theorem subtasks_by_name_prefix_witness:
  "list_print_subtasks (Suc 0) (\<lambda>t. Inr ''run'')
      (tasks_dict [group_task ''t'' [''t:a'', ''x'', ''t:b''], leaf_task ''t:a'',
                   leaf_task ''t:b'', (leaf_task ''x'')\<lparr>is_subtask := True\<rparr>])
      True False True (group_task ''t'' [''t:a'', ''x'', ''t:b'']) (''x'' # [''t:b''])
      (store_of [])
    = list_print_subtasks (Suc 0) (\<lambda>t. Inr ''run'')
      (tasks_dict [group_task ''t'' [''t:a'', ''x'', ''t:b''], leaf_task ''t:a'',
                   leaf_task ''t:b'', (leaf_task ''x'')\<lparr>is_subtask := True\<rparr>])
      True False True (group_task ''t'' [''t:a'', ''x'', ''t:b'']) [''t:b'']
      (store_of [])
   \<and> list_print_task (Suc (Suc 0)) (\<lambda>t. Inr ''run'')
      (tasks_dict [group_task ''t'' [''t:a'', ''x'', ''t:b''], leaf_task ''t:a'',
                   leaf_task ''t:b'', (leaf_task ''x'')\<lparr>is_subtask := True\<rparr>])
      True False True (group_task ''t'' [''t:a'', ''x'', ''t:b'']) (store_of [])
    = (None, (store_of [])\<lparr>out := [''R t\<newline>'', ''R t:a\<newline>'', ''R t:b\<newline>'']\<rparr>)"
proof -
  let ?gs = "(\<lambda>t. Inr ''run'') :: task \<Rightarrow> error + string"
  let ?t = "group_task ''t'' [''t:a'', ''x'', ''t:b'']"
  let ?T = "tasks_dict [?t, leaf_task ''t:a'', leaf_task ''t:b'',
                        (leaf_task ''x'')\<lparr>is_subtask := True\<rparr>]"
  have nx: "\<not> startswith ''x'' (name ?t)"
    by (simp add: startswith_def group_task_def)
  have sl: "status_line ?gs False ?t = Some ''R t\<newline>''"
    by (simp add: status_line_def status_map_def task_str_def group_task_def)
  note a = subtasks_by_name_prefix[of "Suc 0" ?gs ?T True False True ?t _ "store_of []"
      "''R t\<newline>''" "''x''" "[''t:b'']"]
  have 1: "list_print_subtasks (Suc 0) ?gs ?T True False True ?t (''x'' # [''t:b'']) (store_of [])
         = list_print_subtasks (Suc 0) ?gs ?T True False True ?t [''t:b''] (store_of [])"
    by (rule a[THEN conjunct2, THEN conjunct2, THEN conjunct2, THEN conjunct2, THEN conjunct1,
          rule_format, OF nx])
  have f: "filter (\<lambda>subt. startswith subt (name ?t)) (task_dep ?t) = [''t:a'', ''t:b'']"
    by (simp add: startswith_def group_task_def)
  have 2: "list_print_task (Suc (Suc 0)) ?gs ?T True False True ?t (store_of [])
         = list_print_subtasks (Suc 0) ?gs ?T True False True ?t [''t:a'', ''t:b'']
             (outstream_write ''R t\<newline>'' (store_of []))"
    using a[THEN conjunct2, THEN conjunct2, THEN conjunct1, rule_format, OF sl]
    unfolding f .
  have 3: "list_print_subtasks (Suc 0) ?gs ?T True False True ?t [''t:a'', ''t:b'']
             (outstream_write ''R t\<newline>'' (store_of []))
         = (None, (store_of [])\<lparr>out := [''R t\<newline>'', ''R t:a\<newline>'', ''R t:b\<newline>'']\<rparr>)"
    by (simp add: startswith_def group_task_def leaf_task_def tasks_dict_def status_map_def
        task_str_def outstream_write_def store_of_def)
  show ?thesis using 1 2 3 by simp
qed


end
